theory Spec2Isabelle
  imports Main "HOL-Library.Word" "HOL-Library.Signed_Division" "HOL-Library.Multiset"
begin

unbundle bit_operations_syntax

section \<open>Machine types\<close>

text \<open>
  The two C libraries use fixed-width integers throughout. \<open>uint32_t\<close> and \<open>int32_t\<close>
  are \<open>32 word\<close>, \<open>uint64_t\<close>, \<open>int64_t\<close> and \<open>size_t\<close> (on an LP64 target) are
  \<open>64 word\<close>; signedness is not part of the word type but of the operations applied to
  it (\<open>\<le>\<close> and \<open>unat\<close> for unsigned, \<open>\<le>s\<close> and \<open>sint\<close> for signed code). A C \<open>char\<close>
  is the 8-bit type \<open>char\<close>, so that a C string is a \<open>string\<close> holding the characters
  before its terminator.

  A pointer argument is an \<open>option\<close>, \<open>None\<close> being the null pointer. For the
  functions that take one pointer, or only read through their pointers, \<open>Some obj\<close> is
  a valid pointer together with the contents of the object it designates, and a function
  that mutates the object returns its new contents. The two functions that read through
  one pointer and write through another (\<open>reverse_string\<close> and \<open>find_max\<close>) work on an
  explicit memory, in which their pointers are addresses and may overlap.

  A length or capacity argument is passed beside the pointer, as in the source, and the
  functions trust it: reading or writing past the end of an object is undefined in C.
  The theorems therefore state, as a hypothesis, that the length handed to a function
  does not exceed the size of the object it comes with.
\<close>

type_synonym uint32_t = "32 word"
type_synonym int32_t = "32 word"
type_synonym uint64_t = "64 word"
type_synonym int64_t = "64 word"
type_synonym size_t = "64 word"

definition NUL :: char where
  "NUL = CHR 0x00"

section \<open>Library A (mathlib.c)\<close>

subsection \<open>The last-error slot\<close>

text \<open>
  \<open>static char last_error[256]\<close> is the only state of the library. The record holds
  the C string stored in it; it starts out empty. \<open>set_error\<close> copies at most 255
  characters of the message (\<open>strncpy\<close> with \<open>sizeof(last_error) - 1\<close>) and terminates
  the buffer.
\<close>

record mathlib_state =
  last_error :: string

definition set_error :: "string \<Rightarrow> mathlib_state \<Rightarrow> mathlib_state" where
  "set_error message s = s\<lparr>last_error := take 255 message\<rparr>"

definition get_last_error :: "mathlib_state \<Rightarrow> string" where
  "get_last_error s = last_error s"

subsection \<open>factorial\<close>

text \<open>
  The loop \<open>for (uint32_t i = 2; i <= n; i++) result *= i;\<close> with the 32-bit counter
  and the 64-bit accumulator as they are in the source. For \<open>n = UINT32_MAX\<close> the
  condition \<open>i <= n\<close> never fails, so the loop is a partial function; that it returns for
  every \<open>n\<close> the guard lets through is part of what is proved below.
\<close>

partial_function (option) factorial_loop :: "uint32_t \<Rightarrow> uint32_t \<Rightarrow> uint64_t \<Rightarrow> uint64_t option" where
  "factorial_loop n i result =
     (if i \<le> n then factorial_loop n (i + 1) (result * ucast i) else Some result)"

declare factorial_loop.simps [code]

definition factorial :: "uint32_t \<Rightarrow> mathlib_state \<Rightarrow> (uint64_t \<times> mathlib_state) option" where
  "factorial n s =
     (if n > 20 then Some (0, set_error ''Factorial input too large (max 20)'' s)
      else map_option (\<lambda>result. (result, s)) (factorial_loop n 2 1))"

subsection \<open>Loops over \<open>size_t\<close>\<close>

text \<open>
  Every counting loop of the two libraries has the shape
  \<open>for (size_t i = ...; i < bound; i++)\<close>. Inside the body \<open>i < bound\<close> holds, so
  the increment cannot wrap and the distance to the bound shrinks.
\<close>

lemma size_t_loop_step:
  fixes i bound :: size_t
  assumes "i < bound"
  shows "unat (i + 1) = Suc (unat i)"
proof -
  have "unat i < unat bound" using assms by (simp add: word_less_nat_alt)
  moreover have "unat bound < 2 ^ 64" using unsigned_less [of bound, where ?'a = nat] by simp
  ultimately have "unat i + 1 < 2 ^ 64" by linarith
  then show ?thesis
    by (simp add: unat_word_ariths take_bit_nat_eq_self)
qed

lemma size_t_loop_measure:
  fixes i bound :: size_t
  assumes "i < bound"
  shows "unat bound - unat (i + 1) < unat bound - unat i"
proof -
  have "unat i < unat bound" using assms by (simp add: word_less_nat_alt)
  then show ?thesis by (simp add: size_t_loop_step [OF assms])
qed

subsection \<open>sum_array\<close>

function sum_array_loop :: "int32_t list \<Rightarrow> size_t \<Rightarrow> size_t \<Rightarrow> int32_t \<Rightarrow> int32_t" where
  "sum_array_loop array len i sum_acc =
     (if i < len then sum_array_loop array len (i + 1) (sum_acc + array ! unat i) else sum_acc)"
  by pat_completeness auto
termination
  by (relation "measure (\<lambda>(array, len, i, sum_acc). unat len - unat i)")
    (simp_all add: size_t_loop_measure)

declare sum_array_loop.simps [simp del]

definition sum_array :: "int32_t list option \<Rightarrow> size_t \<Rightarrow> mathlib_state \<Rightarrow> int32_t \<times> mathlib_state" where
  "sum_array array len s =
     (case array of
        None \<Rightarrow> (0, set_error ''Null pointer passed to sum_array'' s)
      | Some arr \<Rightarrow> (sum_array_loop arr len 0 0, s))"

subsection \<open>Memory for the functions that take two pointers\<close>

text \<open>
  \<open>reverse_string\<close> and \<open>find_max\<close> read through one pointer and write through
  another, and nothing in their signatures keeps the two apart. For them memory is
  explicit: a list of cells, a pointer being \<open>None\<close> (the null pointer) or \<open>Some a\<close>, the
  address of cell \<open>a\<close>. They return the memory after the call. An access outside the
  memory is undefined behaviour in C; the functions return \<open>None\<close> then.
\<close>

type_synonym addr = nat

subsection \<open>reverse_string\<close>







subsection \<open>find_max\<close>

text \<open>
  \<open>find_max\<close> keeps the running maximum in \<open>*max_value\<close>, reading it back from memory
  at every comparison; the comparison \<open>array[i] > *max_value\<close> is the signed one.
\<close>

function find_max_loop ::
  "int32_t list \<Rightarrow> addr \<Rightarrow> size_t \<Rightarrow> size_t \<Rightarrow> addr \<Rightarrow> int32_t list option" where
  "find_max_loop mem array len i max_value =
     (if i < len
      then (if array + unat i < length mem \<and> max_value < length mem
            then (if mem ! max_value <s mem ! (array + unat i)
                  then find_max_loop (mem[max_value := mem ! (array + unat i)]) array len (i + 1) max_value
                  else find_max_loop mem array len (i + 1) max_value)
            else None)
      else Some mem)"
  by pat_completeness auto
termination
  by (relation "measure (\<lambda>(mem, array, len, i, max_value). unat len - unat i)")
    (simp_all add: size_t_loop_measure)

declare find_max_loop.simps [simp del]

definition find_max ::
  "addr option \<Rightarrow> size_t \<Rightarrow> addr option \<Rightarrow> int32_t list \<Rightarrow> mathlib_state
     \<Rightarrow> (int32_t \<times> int32_t list \<times> mathlib_state) option" where
  "find_max array len max_value mem s =
     (case (array, max_value) of
        (Some arr, Some mv) \<Rightarrow>
          (if len = 0
           then Some (- 1, mem, set_error ''Empty array passed to find_max'' s)
           else if arr < length mem \<and> mv < length mem
                then map_option (\<lambda>mem'. (0, mem', s))
                       (find_max_loop (mem[mv := mem ! arr]) arr len 1 mv)
                else None)
      | _ \<Rightarrow> Some (- 1, mem, set_error ''Null pointer passed to find_max'' s))"

section \<open>Library B (task_ops.c)\<close>

subsection \<open>Error codes (task_ops.h)\<close>

definition TASK_OPS_SUCCESS :: int where
  "TASK_OPS_SUCCESS = 0"

definition TASK_OPS_ERROR_NULL_POINTER :: int where
  "TASK_OPS_ERROR_NULL_POINTER = - 1"

subsection \<open>fast_factorial\<close>

text \<open>
  \<open>int32_t\<close> counter compared with the signed order, \<open>int64_t\<close> accumulator; the
  counter is sign-extended for the multiplication.
\<close>

partial_function (option) fast_factorial_loop :: "int32_t \<Rightarrow> int32_t \<Rightarrow> int64_t \<Rightarrow> int64_t option" where
  "fast_factorial_loop n i result =
     (if i \<le>s n then fast_factorial_loop n (i + 1) (result * scast i) else Some result)"

declare fast_factorial_loop.simps [code]

definition fast_factorial :: "int32_t \<Rightarrow> int64_t option" where
  "fast_factorial n =
     (if n <s 0 \<or> 20 <s n then Some (- 1) else fast_factorial_loop n 2 1)"

subsection \<open>fast_gcd\<close>

text \<open>
  \<open>%\<close> on \<open>int64_t\<close> truncates towards zero (the remainder has the sign of the
  dividend). Negation of the most negative value wraps to itself, which is what the
  two's complement negate instruction computes.
\<close>

definition c_rem :: "int64_t \<Rightarrow> int64_t \<Rightarrow> int64_t" where
  "c_rem a b = word_of_int (sint a smod sint b)"

lemma sint_nonzero:
  fixes b :: int64_t
  assumes "b \<noteq> 0"
  shows "sint b \<noteq> 0"
proof
  assume "sint b = 0"
  then have "sint b = sint (0 :: int64_t)" by simp
  then have "b = 0" by (rule signed_word_eqI)
  with assms show False by simp
qed

lemma sint_c_rem:
  "sint (c_rem a b) = sint a smod sint b"
proof (cases "b = 0")
  case True
  then show ?thesis by (simp add: c_rem_def)
next
  case False
  then have "sint a smod sint b \<in> {- \<bar>sint b\<bar> + 1..\<bar>sint b\<bar> - 1}"
    by (intro smod_int_range sint_nonzero)
  moreover have "- (2 ^ 63) \<le> sint b" "sint b < 2 ^ 63"
    using sint_ge [of b] sint_lt [of b] by simp_all
  ultimately have "- (2 ^ 63) \<le> sint a smod sint b \<and> sint a smod sint b < 2 ^ 63"
    by auto
  then show ?thesis
    by (simp add: c_rem_def sint_sbintrunc' signed_take_bit_int_eq_self)
qed

lemma c_rem_decreases:
  assumes "b \<noteq> 0"
  shows "\<bar>sint (c_rem a b)\<bar> < \<bar>sint b\<bar>"
proof -
  have "sint a smod sint b \<in> {- \<bar>sint b\<bar> + 1..\<bar>sint b\<bar> - 1}"
    using assms by (intro smod_int_range sint_nonzero)
  then show ?thesis by (auto simp: sint_c_rem)
qed

function fast_gcd_loop :: "int64_t \<Rightarrow> int64_t \<Rightarrow> int64_t" where
  "fast_gcd_loop a b = (if b \<noteq> 0 then fast_gcd_loop b (c_rem a b) else a)"
  by pat_completeness auto
termination
  by (relation "measure (\<lambda>(a, b). nat \<bar>sint b\<bar>)")
    (simp_all add: c_rem_decreases sint_nonzero)

declare fast_gcd_loop.simps [simp del]

definition fast_gcd :: "int64_t \<Rightarrow> int64_t \<Rightarrow> int64_t" where
  "fast_gcd a b =
     (let a = (if a <s 0 then - a else a);
          b = (if b <s 0 then - b else b)
      in fast_gcd_loop a b)"

subsection \<open>fast_array_sum\<close>

function fast_array_sum_loop :: "int64_t list \<Rightarrow> size_t \<Rightarrow> size_t \<Rightarrow> int64_t \<Rightarrow> int64_t" where
  "fast_array_sum_loop arr len i sum_acc =
     (if i < len then fast_array_sum_loop arr len (i + 1) (sum_acc + arr ! unat i) else sum_acc)"
  by pat_completeness auto
termination
  by (relation "measure (\<lambda>(arr, len, i, sum_acc). unat len - unat i)")
    (simp_all add: size_t_loop_measure)

declare fast_array_sum_loop.simps [simp del]

definition fast_array_sum :: "int64_t list option \<Rightarrow> size_t \<Rightarrow> int64_t" where
  "fast_array_sum arr len =
     (case arr of
        None \<Rightarrow> of_int TASK_OPS_ERROR_NULL_POINTER
      | Some a \<Rightarrow> fast_array_sum_loop a len 0 0)"

subsection \<open>quicksort and fast_array_sort\<close>

text \<open>
  The indices of \<open>quicksort\<close> are C \<open>int\<close>s: 32-bit words compared with the signed
  order, whose arithmetic wraps around (what the compiled code does where C leaves
  signed overflow undefined). An element \<open>arr[k]\<close> is read at \<open>nat (sint k)\<close>; an index
  outside the array is undefined in C, and everything proved of the result below is
  proved for calls whose indices stay inside it. The narrowing conversion \<open>(int)len\<close>
  of \<open>fast_array_sort\<close> keeps the low 32 bits of \<open>len\<close>, and the subtraction
  \<open>(int)len - 1\<close> is an \<open>int\<close> subtraction.

  The partition loop \<open>for (int j = low; j < high; j++)\<close> returns the array and the
  index \<open>i\<close> of the last element found to be \<open>\<le> pivot\<close>; it always terminates, since
  \<open>j < high\<close> keeps \<open>j + 1\<close> from wrapping. The recursion of \<open>quicksort\<close> itself need
  not terminate on arbitrary indices (an index that wraps can widen the range), so
  \<open>quicksort\<close> is a partial function, and \<open>fast_array_sort\<close> returns \<open>None\<close> where it
  does not return; \<open>Some None\<close> is its return for the null pointer.
\<close>

type_synonym c_int = "32 word"

function quicksort_loop ::
  "int64_t list \<Rightarrow> int64_t \<Rightarrow> c_int \<Rightarrow> c_int \<Rightarrow> c_int \<Rightarrow> int64_t list \<times> c_int" where
  "quicksort_loop arr pivot high j i =
     (if j <s high
      then (if arr ! nat (sint j) \<le>s pivot
            then (let i = i + 1;
                      temp = arr ! nat (sint i);
                      arr = arr[nat (sint i) := arr ! nat (sint j)];
                      arr = arr[nat (sint j) := temp]
                  in quicksort_loop arr pivot high (j + 1) i)
            else quicksort_loop arr pivot high (j + 1) i)
      else (arr, i))"
  by pat_completeness auto
termination
proof (relation "measure (\<lambda>(arr, pivot, high, j, i). nat (sint high - sint j))", goal_cases)
  case 1
  show ?case by simp
next
  case (2 arr pivot high j i)
  then have "sint j < sint high" by (simp add: word_sless_alt)
  moreover have "sint high < 2 ^ 31" using sint_lt [of high] by simp
  moreover have "- (2 ^ 31) \<le> sint j" using sint_ge [of j] by simp
  ultimately have "sint (j + 1) = sint j + 1"
    by (simp add: sint_word_ariths signed_take_bit_int_eq_self)
  with \<open>sint j < sint high\<close> show ?case by simp
next
  case (3 arr pivot high j i)
  then have "sint j < sint high" by (simp add: word_sless_alt)
  moreover have "sint high < 2 ^ 31" using sint_lt [of high] by simp
  moreover have "- (2 ^ 31) \<le> sint j" using sint_ge [of j] by simp
  ultimately have "sint (j + 1) = sint j + 1"
    by (simp add: sint_word_ariths signed_take_bit_int_eq_self)
  with \<open>sint j < sint high\<close> show ?case by simp
qed

declare quicksort_loop.simps [simp del]

partial_function (option) quicksort :: "int64_t list \<Rightarrow> c_int \<Rightarrow> c_int \<Rightarrow> int64_t list option" where
  "quicksort arr low high =
     (if low <s high
      then (let pivot = arr ! nat (sint high);
                i = low - 1;
                (arr, i) = quicksort_loop arr pivot high low i;
                temp = arr ! nat (sint (i + 1));
                arr = arr[nat (sint (i + 1)) := arr ! nat (sint high)];
                arr = arr[nat (sint high) := temp];
                pi = i + 1
            in Option.bind (quicksort arr low (pi - 1)) (\<lambda>arr. quicksort arr (pi + 1) high))
      else Some arr)"

declare quicksort.simps [code]

definition fast_array_sort :: "int64_t list option \<Rightarrow> size_t \<Rightarrow> int64_t list option option" where
  "fast_array_sort arr len =
     (case arr of
        None \<Rightarrow> Some None
      | Some a \<Rightarrow>
          if len \<le> 1 then Some (Some a)
          else map_option Some (quicksort a 0 ((ucast len :: c_int) - 1)))"

subsection \<open>fast_string_reverse\<close>

text \<open>
  The in-place reversal swaps \<open>str[i]\<close> and \<open>str[len - 1 - i]\<close> for \<open>i < len / 2\<close>.
\<close>

function fast_string_reverse_loop :: "string \<Rightarrow> size_t \<Rightarrow> size_t \<Rightarrow> string" where
  "fast_string_reverse_loop str len i =
     (if i < len div 2
      then (let temp = str ! unat i;
                str = str[unat i := str ! unat (len - 1 - i)];
                str = str[unat (len - 1 - i) := temp]
            in fast_string_reverse_loop str len (i + 1))
      else str)"
  by pat_completeness auto
termination
  by (relation "measure (\<lambda>(str, len, i). unat (len div 2) - unat i)")
    (simp_all add: size_t_loop_measure)

declare fast_string_reverse_loop.simps [simp del]

definition fast_string_reverse :: "string option \<Rightarrow> size_t \<Rightarrow> string option" where
  "fast_string_reverse str len =
     (case str of
        None \<Rightarrow> None
      | Some buf \<Rightarrow> if len \<le> 1 then Some buf else Some (fast_string_reverse_loop buf len 0))"

subsection \<open>fast_string_hash\<close>

text \<open>
  The two constants are the locals \<open>hash\<close> (initial value) and \<open>prime\<close> of the source.
  \<open>(uint64_t)(unsigned char)str[i]\<close> is the character's code, zero-extended.
\<close>

definition FNV_offset_basis :: uint64_t where
  "FNV_offset_basis = 14695981039346656037"

definition FNV_prime :: uint64_t where
  "FNV_prime = 1099511628211"

function fast_string_hash_loop :: "string \<Rightarrow> size_t \<Rightarrow> size_t \<Rightarrow> uint64_t \<Rightarrow> uint64_t" where
  "fast_string_hash_loop str len i hash =
     (if i < len \<and> str ! unat i \<noteq> NUL
      then fast_string_hash_loop str len (i + 1) ((hash XOR of_char (str ! unat i)) * FNV_prime)
      else hash)"
  by pat_completeness auto
termination
  by (relation "measure (\<lambda>(str, len, i, hash). unat len - unat i)")
    (simp_all add: size_t_loop_measure)

declare fast_string_hash_loop.simps [simp del]

definition fast_string_hash :: "string option \<Rightarrow> size_t \<Rightarrow> uint64_t" where
  "fast_string_hash str len =
     (case str of
        None \<Rightarrow> 0
      | Some s \<Rightarrow> fast_string_hash_loop s len 0 FNV_offset_basis)"

subsection \<open>fast_memory_compare\<close>

text \<open>
  \<open>memcmp\<close> is the C library's. ISO C fixes the sign of its result: that of the
  difference between the first pair of bytes that differ, both read as
  \<open>unsigned char\<close>, and zero when the first \<open>n\<close> bytes agree. The model returns that
  difference itself, as the portable byte-wise implementations do.
\<close>

type_synonym byte = "8 word"

fun memcmp_bytes :: "byte list \<Rightarrow> byte list \<Rightarrow> int" where
  "memcmp_bytes (x # xs) (y # ys) = (if x = y then memcmp_bytes xs ys else uint x - uint y)"
| "memcmp_bytes _ _ = 0"

definition memcmp :: "byte list \<Rightarrow> byte list \<Rightarrow> size_t \<Rightarrow> int" where
  "memcmp a b n = memcmp_bytes (take (unat n) a) (take (unat n) b)"

definition fast_memory_compare :: "byte list option \<Rightarrow> byte list option \<Rightarrow> size_t \<Rightarrow> int" where
  "fast_memory_compare a b len =
     (case (a, b) of
        (Some x, Some y) \<Rightarrow> memcmp x y len
      | _ \<Rightarrow> TASK_OPS_ERROR_NULL_POINTER)"

section \<open>Notions used to state the properties\<close>

text \<open>The larger of two \<open>int32_t\<close> values, as the body of the \<open>find_max\<close> loop computes it.\<close>

definition smax32 :: "int32_t \<Rightarrow> int32_t \<Rightarrow> int32_t" where
  "smax32 m x = (if m <s x then x else m)"

text \<open>The most negative \<open>int64_t\<close>, the one value whose negation is not an \<open>int64_t\<close>.\<close>

definition INT64_MIN :: int64_t where
  "INT64_MIN = - 9223372036854775808"

text \<open>
  FNV-1a as the specification words it: start from the offset basis
  \<open>14695981039346656037\<close>; for each byte, XOR the byte into the hash, then multiply
  by the prime \<open>1099511628211\<close>, in 64-bit arithmetic.
\<close>

definition fnv1a_64 :: "string \<Rightarrow> uint64_t" where
  "fnv1a_64 bytes =
     foldl (\<lambda>h b. (h XOR of_char b) * 1099511628211) 14695981039346656037 bytes"


text \<open>
  The statements of \<open>quicksort\<close> between the test \<open>low < high\<close> and the two recursive
  calls, as a function of their own: the pivot is \<open>arr[high]\<close>, the loop partitions
  \<open>arr[low .. high - 1]\<close>, and the pivot is swapped into place at \<open>pi = i + 1\<close>.
  \<open>quicksort_unfold\<close> shows that \<open>quicksort\<close> is this step followed by the two
  recursive calls.
\<close>

definition quicksort_partition :: "int64_t list \<Rightarrow> c_int \<Rightarrow> c_int \<Rightarrow> int64_t list \<times> c_int" where
  "quicksort_partition arr low high =
     (let pivot = arr ! nat (sint high);
          i = low - 1;
          (arr, i) = quicksort_loop arr pivot high low i;
          temp = arr ! nat (sint (i + 1));
          arr = arr[nat (sint (i + 1)) := arr ! nat (sint high)];
          arr = arr[nat (sint high) := temp]
      in (arr, i + 1))"

section \<open>Factorial: both libraries\<close>

lemma fact_le_20_bound:
  assumes "k \<le> 20"
  shows "(fact k :: nat) < 2 ^ 63"
proof -
  have "(fact k :: nat) \<le> fact 20"
    using assms by (rule fact_mono)
  also have "(fact 20 :: nat) < 2 ^ 63"
    by (simp add: fact_numeral)
  finally show ?thesis .
qed

lemma factorial_loop_inv:
  assumes "1 \<le> unat i" "unat n < 2 ^ 32 - 1"
  shows "factorial_loop n i (of_nat (fact (unat i - 1))) =
         Some (of_nat (fact (max (unat n) (unat i - 1))))"
  using assms
proof (induction "Suc (unat n) - unat i" arbitrary: i)
  case 0
  then have "\<not> i \<le> n" by (simp add: word_le_nat_alt)
  moreover from 0 have "max (unat n) (unat i - 1) = unat i - 1" by simp
  ultimately show ?case by (subst factorial_loop.simps) simp
next
  case (Suc k)
  then have le: "i \<le> n" by (simp add: word_le_nat_alt)
  have ui: "unat (i + 1) = unat i + 1"
    using le Suc.prems by (simp add: unat_word_ariths word_le_nat_alt)
  have "(of_nat (fact (unat i - 1)) :: 64 word) * ucast i = of_nat (fact (unat i - 1) * unat i)"
    by (simp add: of_nat_unat)
  also have "fact (unat i - 1) * unat i = fact (unat i)"
    using Suc.prems(1) by (cases "unat i") (simp_all add: mult.commute)
  finally have step:
    "(of_nat (fact (unat i - 1)) :: 64 word) * ucast i = of_nat (fact (unat (i + 1) - 1))"
    by (simp add: ui)
  have "factorial_loop n (i + 1) (of_nat (fact (unat (i + 1) - 1))) =
        Some (of_nat (fact (max (unat n) (unat (i + 1) - 1))))"
    using Suc by (intro Suc.hyps(1)) (simp_all add: ui)
  moreover have "max (unat n) (unat (i + 1) - 1) = max (unat n) (unat i - 1)"
    using le by (simp add: ui word_le_nat_alt)
  ultimately show ?case
    using le step by (subst factorial_loop.simps) simp
qed

lemma sint32_succ:
  fixes i :: "32 word"
  assumes "sint i < 2 ^ 31 - 1"
  shows "sint (i + 1) = sint i + 1"
proof -
  have "- (2 ^ 31) \<le> sint i" using sint_ge [of i] by simp
  then show ?thesis
    using assms by (simp add: sint_word_ariths signed_take_bit_int_eq_self)
qed

lemma fast_factorial_loop_inv:
  assumes "1 \<le> sint i" "sint n < 2 ^ 31 - 1"
  shows "fast_factorial_loop n i (of_nat (fact (nat (sint i) - 1))) =
         Some (of_nat (fact (max (nat (sint n)) (nat (sint i) - 1))))"
  using assms
proof (induction "nat (sint n + 1 - sint i)" arbitrary: i)
  case 0
  then have "\<not> i \<le>s n" by (simp add: word_sle_eq)
  moreover from 0 have "max (nat (sint n)) (nat (sint i) - 1) = nat (sint i) - 1" by simp
  ultimately show ?case by (subst fast_factorial_loop.simps) simp
next
  case (Suc k)
  then have le: "i \<le>s n" by (simp add: word_sle_eq)
  have ui: "sint (i + 1) = sint i + 1"
    using le Suc.prems by (intro sint32_succ) (simp add: word_sle_eq)
  have sc: "(scast i :: 64 word) = of_nat (nat (sint i))"
    using Suc.prems(1) by (simp add: of_int_sint)
  have "(of_nat (fact (nat (sint i) - 1)) :: 64 word) * scast i
        = of_nat (fact (nat (sint i) - 1) * nat (sint i))"
    by (simp add: sc)
  also have "fact (nat (sint i) - 1) * nat (sint i) = fact (nat (sint i))"
    using Suc.prems(1) by (cases "nat (sint i)") (simp_all add: mult.commute)
  finally have step:
    "(of_nat (fact (nat (sint i) - 1)) :: 64 word) * scast i = of_nat (fact (nat (sint (i + 1)) - 1))"
    using Suc.prems(1) by (simp add: ui nat_add_distrib)
  have "fast_factorial_loop n (i + 1) (of_nat (fact (nat (sint (i + 1)) - 1))) =
        Some (of_nat (fact (max (nat (sint n)) (nat (sint (i + 1)) - 1))))"
    using Suc by (intro Suc.hyps(1)) (simp_all add: ui)
  moreover have "max (nat (sint n)) (nat (sint (i + 1)) - 1) = max (nat (sint n)) (nat (sint i) - 1)"
    using le Suc.prems(1) by (simp add: ui word_sle_eq nat_add_distrib)
  ultimately show ?case
    using le step by (subst fast_factorial_loop.simps) simp
qed

lemma factorial_in_range:
  assumes "n \<le> 20"
  shows "factorial n s = Some (of_nat (fact (unat n)), s)"
proof -
  have n: "unat n \<le> 20" using assms by (simp add: word_le_nat_alt)
  have "factorial_loop n 2 (of_nat (fact (unat (2 :: 32 word) - 1)))
        = Some (of_nat (fact (max (unat n) (unat (2 :: 32 word) - 1))))"
    using n by (intro factorial_loop_inv) simp_all
  moreover have "fact (max (unat n) (Suc 0)) = (fact (unat n) :: nat)"
    by (cases "unat n") simp_all
  ultimately have "factorial_loop n 2 1 = Some (of_nat (fact (unat n)))"
    by simp
  moreover have "\<not> 20 < n" using assms by simp
  ultimately show ?thesis by (simp add: factorial_def)
qed

lemma fast_factorial_in_range:
  assumes "0 \<le> sint n" "sint n \<le> 20"
  shows "fast_factorial n = Some (of_nat (fact (nat (sint n))))"
proof -
  have "fast_factorial_loop n 2 (of_nat (fact (nat (sint (2 :: 32 word)) - 1)))
        = Some (of_nat (fact (max (nat (sint n)) (nat (sint (2 :: 32 word)) - 1))))"
    using assms by (intro fast_factorial_loop_inv) simp_all
  moreover have "fact (max (nat (sint n)) (Suc 0)) = (fact (nat (sint n)) :: nat)"
    by (cases "nat (sint n)") simp_all
  ultimately have "fast_factorial_loop n 2 1 = Some (of_nat (fact (nat (sint n))))"
    by simp
  moreover have "\<not> (n <s 0 \<or> 20 <s n)" using assms by (simp add: word_sless_alt)
  ultimately show ?thesis by (simp add: fast_factorial_def)
qed

lemma unat_fact_word64:
  assumes "k \<le> 20"
  shows "unat (of_nat (fact k) :: 64 word) = fact k"
proof -
  have "(fact k :: nat) < 2 ^ 64"
    using fact_le_20_bound [OF assms] by simp
  then show ?thesis by (simp add: unat_of_nat take_bit_nat_eq_self)
qed

lemma sint_of_nat_word64:
  assumes "m < 2 ^ 63"
  shows "sint (of_nat m :: 64 word) = int m"
proof -
  have "int m < 2 ^ 63" using assms by (metis of_nat_less_iff of_nat_numeral of_nat_power)
  moreover have "(of_nat m :: 64 word) = word_of_int (int m)" by simp
  ultimately show ?thesis
    by (simp only: sint_sbintrunc') (simp add: signed_take_bit_int_eq_self)
qed

lemma sint_fact_word64:
  assumes "k \<le> 20"
  shows "sint (of_nat (fact k) :: 64 word) = fact k"
  using sint_of_nat_word64 [OF fact_le_20_bound [OF assms]] by simp

text \<open>
  Claim C1. Library A's \<open>factorial\<close> returns \<open>n!\<close>, exactly and without wrapping
  the 64-bit unsigned result, for \<open>n \<le> 20\<close>, leaving the state alone; for \<open>n > 20\<close> it
  returns 0 and records a non-empty error message. Library B's \<open>fast_factorial\<close>
  returns \<open>n!\<close> for \<open>0 \<le> n \<le> 20\<close> and the sentinel \<open>-1\<close> for \<open>n < 0\<close> or
  \<open>n > 20\<close>. Both loops return on every input. In particular \<open>factorial(0) = 1\<close>,
  \<open>factorial(5) = 120\<close>, and \<open>factorial(21)\<close> signals the error in both libraries.
\<close>

theorem factorial_both_libraries:
  fixes n :: uint32_t and m :: int32_t
  shows
    "(n \<le> 20 \<longrightarrow>
        factorial n s = Some (of_nat (fact (unat n)), s) \<and>
        unat (of_nat (fact (unat n)) :: uint64_t) = fact (unat n)) \<and>
     (20 < n \<longrightarrow>
        factorial n s = Some (0, s\<lparr>last_error := ''Factorial input too large (max 20)''\<rparr>) \<and>
        get_last_error (s\<lparr>last_error := ''Factorial input too large (max 20)''\<rparr>) \<noteq> []) \<and>
     (0 \<le> sint m \<and> sint m \<le> 20 \<longrightarrow>
        fast_factorial m = Some (of_nat (fact (nat (sint m)))) \<and>
        sint (of_nat (fact (nat (sint m))) :: int64_t) = fact (nat (sint m))) \<and>
     (sint m < 0 \<or> 20 < sint m \<longrightarrow> fast_factorial m = Some (- 1)) \<and>
     factorial 0 s = Some (1, s) \<and> factorial 5 s = Some (120, s) \<and>
     fast_factorial 0 = Some 1 \<and> fast_factorial 5 = Some 120 \<and>
     fst (the (factorial 21 s)) = 0 \<and> get_last_error (snd (the (factorial 21 s))) \<noteq> [] \<and>
     fast_factorial 21 = Some (- 1)"
proof -
  have a_ok: "n \<le> 20 \<Longrightarrow> factorial n s = Some (of_nat (fact (unat n)), s)" for n
    by (rule factorial_in_range)
  have a_exact: "n \<le> 20 \<Longrightarrow> unat (of_nat (fact (unat n)) :: uint64_t) = fact (unat n)"
    by (rule unat_fact_word64) (simp add: word_le_nat_alt)
  have a_err: "20 < n \<Longrightarrow>
      factorial n s = Some (0, s\<lparr>last_error := ''Factorial input too large (max 20)''\<rparr>)" for n
    by (simp add: factorial_def set_error_def)
  have b_ok: "0 \<le> sint m \<Longrightarrow> sint m \<le> 20 \<Longrightarrow>
      fast_factorial m = Some (of_nat (fact (nat (sint m))))" for m
    by (rule fast_factorial_in_range)
  have b_exact: "0 \<le> sint m \<Longrightarrow> sint m \<le> 20 \<Longrightarrow>
      sint (of_nat (fact (nat (sint m))) :: int64_t) = fact (nat (sint m))"
    by (rule sint_fact_word64) simp
  have b_err: "sint m < 0 \<or> 20 < sint m \<Longrightarrow> fast_factorial m = Some (- 1)" for m
    by (auto simp: fast_factorial_def word_sless_alt)
  have a0: "factorial 0 s = Some (1, s)" using a_ok [of 0] by simp
  have a5: "factorial 5 s = Some (120, s)" using a_ok [of 5] by (simp add: fact_numeral)
  have b0: "fast_factorial 0 = Some 1" using b_ok [of 0] by simp
  have b5: "fast_factorial 5 = Some 120" using b_ok [of 5] by (simp add: fact_numeral)
  have a21: "factorial 21 s = Some (0, s\<lparr>last_error := ''Factorial input too large (max 20)''\<rparr>)"
    using a_err [of 21] by simp
  have b21: "fast_factorial 21 = Some (- 1)" using b_err [of 21] by simp
  show ?thesis
    using a_ok a_exact a_err b_ok b_exact b_err a0 a5 b0 b5 b21
    by (simp add: a21 get_last_error_def)
qed

theorem factorial_both_libraries_witness:
  "(20 :: uint32_t) \<le> 20 \<and>
   factorial 20 \<lparr>last_error = []\<rparr> = Some (2432902008176640000, \<lparr>last_error = []\<rparr>) \<and>
   (20 :: uint32_t) < 25 \<and>
   factorial 25 \<lparr>last_error = []\<rparr>
     = Some (0, \<lparr>last_error = ''Factorial input too large (max 20)''\<rparr>) \<and>
   0 \<le> sint (20 :: int32_t) \<and> sint (20 :: int32_t) \<le> 20 \<and>
   fast_factorial 20 = Some 2432902008176640000 \<and>
   sint (- 7 :: int32_t) < 0 \<and> fast_factorial (- 7) = Some (- 1)"
  using factorial_both_libraries [of 20 "\<lparr>last_error = []\<rparr>" 20]
    factorial_both_libraries [of 25 "\<lparr>last_error = []\<rparr>" "- 7"]
  by (simp add: fact_numeral)

section \<open>Array sums: both libraries\<close>

lemma drop_take_step:
  assumes "i < n" "n \<le> length xs"
  shows "drop i (take n xs) = xs ! i # drop (Suc i) (take n xs)"
proof -
  have "i < length (take n xs)" using assms by simp
  then have "drop i (take n xs) = take n xs ! i # drop (Suc i) (take n xs)"
    by (rule Cons_nth_drop_Suc [symmetric])
  with assms show ?thesis by simp
qed

lemma fast_array_sum_loop_foldl:
  assumes "unat len \<le> length arr"
  shows "fast_array_sum_loop arr len i acc = foldl (+) acc (drop (unat i) (take (unat len) arr))"
  using assms
proof (induction arr len i acc rule: fast_array_sum_loop.induct)
  case (1 arr len i acc)
  show ?case
  proof (cases "i < len")
    case True
    then have lt: "unat i < unat len" by (simp add: word_less_nat_alt)
    have "fast_array_sum_loop arr len i acc = fast_array_sum_loop arr len (i + 1) (acc + arr ! unat i)"
      using True by (subst fast_array_sum_loop.simps) simp
    also have "\<dots> = foldl (+) (acc + arr ! unat i) (drop (unat (i + 1)) (take (unat len) arr))"
      using True "1.prems" by (rule "1.IH")
    also have "\<dots> = foldl (+) acc (drop (unat i) (take (unat len) arr))"
      using drop_take_step [OF lt "1.prems"] by (simp add: size_t_loop_step [OF True])
    finally show ?thesis .
  next
    case False
    then have "unat len \<le> unat i" by (simp add: word_less_nat_alt)
    with False show ?thesis by (subst fast_array_sum_loop.simps) simp
  qed
qed

lemma sum_array_loop_foldl:
  assumes "unat len \<le> length arr"
  shows "sum_array_loop arr len i acc = foldl (+) acc (drop (unat i) (take (unat len) arr))"
  using assms
proof (induction arr len i acc rule: sum_array_loop.induct)
  case (1 arr len i acc)
  show ?case
  proof (cases "i < len")
    case True
    then have lt: "unat i < unat len" by (simp add: word_less_nat_alt)
    have "sum_array_loop arr len i acc = sum_array_loop arr len (i + 1) (acc + arr ! unat i)"
      using True by (subst sum_array_loop.simps) simp
    also have "\<dots> = foldl (+) (acc + arr ! unat i) (drop (unat (i + 1)) (take (unat len) arr))"
      using True "1.prems" by (rule "1.IH")
    also have "\<dots> = foldl (+) acc (drop (unat i) (take (unat len) arr))"
      using drop_take_step [OF lt "1.prems"] by (simp add: size_t_loop_step [OF True])
    finally show ?thesis .
  next
    case False
    then have "unat len \<le> unat i" by (simp add: word_less_nat_alt)
    with False show ?thesis by (subst sum_array_loop.simps) simp
  qed
qed

lemma foldl_plus_sum_list:
  fixes acc :: "'a :: monoid_add"
  shows "foldl (+) acc xs = acc + sum_list xs"
  by (induction xs arbitrary: acc) (simp_all add: add.assoc)

text \<open>
  Claim C6 says that Library B's sum yields a negative sentinel for empty or null input.
  \<open>fast_array_sum\<close> tests the pointer only: a non-null span of length 0 runs the loop
  zero times and returns the initial sum 0, which is not negative.
\<close>

theorem fast_array_sum_empty_counterexample:
  "\<not> (fast_array_sum (Some []) 0 <s 0)"
  by (simp add: fast_array_sum_def fast_array_sum_loop.simps)

text \<open>
  Claim C6, amended. Library B's \<open>fast_array_sum\<close> yields the negative sentinel \<open>-1\<close>
  for a null pointer and 0 for a non-null span of length 0; Library A's \<open>sum_array\<close>
  yields 0 for both (recording a message for the null pointer). For every non-null
  span, in either library, the result is the left-to-right accumulation of its
  elements in the arithmetic of the element type, starting from 0; for example
  \<open>sum([1,2,3,4,5]) = 15\<close>.
\<close>

theorem sum_conventions:
  "fast_array_sum None len = - 1 \<and>
   fast_array_sum None len <s 0 \<and>
   fast_array_sum (Some arr) 0 = 0 \<and>
   sum_array None n s = (0, set_error ''Null pointer passed to sum_array'' s) \<and>
   sum_array (Some array) 0 s = (0, s) \<and>
   (unat len \<le> length arr \<longrightarrow>
      fast_array_sum (Some arr) len = foldl (+) 0 (take (unat len) arr) \<and>
      fast_array_sum (Some arr) len = sum_list (take (unat len) arr)) \<and>
   (unat n \<le> length array \<longrightarrow>
      sum_array (Some array) n s = (foldl (+) 0 (take (unat n) array), s) \<and>
      sum_array (Some array) n s = (sum_list (take (unat n) array), s)) \<and>
   fast_array_sum (Some [1, 2, 3, 4, 5]) 5 = 15 \<and>
   sum_array (Some [1, 2, 3, 4, 5]) 5 s = (15, s)"
proof -
  have null_b: "fast_array_sum None len = - 1"
    by (simp add: fast_array_sum_def TASK_OPS_ERROR_NULL_POINTER_def)
  have neg: "(- 1 :: int64_t) <s 0" by (simp add: word_sless_alt)
  have empty_b: "fast_array_sum (Some arr) 0 = 0"
    by (simp add: fast_array_sum_def fast_array_sum_loop.simps)
  have null_a: "sum_array None n s = (0, set_error ''Null pointer passed to sum_array'' s)"
    by (simp add: sum_array_def)
  have empty_a: "sum_array (Some array) 0 s = (0, s)"
    by (simp add: sum_array_def sum_array_loop.simps)
  have gen_b: "fast_array_sum (Some arr) len = foldl (+) 0 (take (unat len) arr)"
    if "unat len \<le> length arr" for arr len
    using fast_array_sum_loop_foldl [OF that, of 0 0] by (simp add: fast_array_sum_def)
  have gen_a: "sum_array (Some array) n s = (foldl (+) 0 (take (unat n) array), s)"
    if "unat n \<le> length array" for array n
    using sum_array_loop_foldl [OF that, of 0 0] by (simp add: sum_array_def)
  have ex_b: "fast_array_sum (Some [1, 2, 3, 4, 5]) 5 = 15"
    using gen_b [of 5 "[1, 2, 3, 4, 5]"] by simp
  have ex_a: "sum_array (Some [1, 2, 3, 4, 5]) 5 s = (15, s)"
    using gen_a [of 5 "[1, 2, 3, 4, 5]"] by simp
  show ?thesis
    using gen_a gen_b
    by (simp add: null_b neg empty_b null_a empty_a ex_a ex_b foldl_plus_sum_list)
qed

theorem sum_conventions_witness:
  "unat (3 :: size_t) \<le> length [10, 20, 30, 40 :: int64_t] \<and>
   fast_array_sum (Some [10, 20, 30, 40]) 3 = 60 \<and>
   unat (2 :: size_t) \<le> length [7, - 9, 4 :: int32_t] \<and>
   sum_array (Some [7, - 9, 4]) 2 \<lparr>last_error = []\<rparr> = (- 2, \<lparr>last_error = []\<rparr>)"
  using sum_conventions [of 3 "[10, 20, 30, 40]" 2 "\<lparr>last_error = []\<rparr>" "[7, - 9, 4]"]
  by simp

section \<open>fast_gcd\<close>

lemma fast_gcd_loop_nonneg:
  assumes "0 \<le> sint a" "0 \<le> sint b"
  shows "sint (fast_gcd_loop a b) = gcd (sint a) (sint b)"
  using assms
proof (induction a b rule: fast_gcd_loop.induct)
  case (1 a b)
  show ?case
  proof (cases "b = 0")
    case True
    then show ?thesis
      using "1.prems" by (subst fast_gcd_loop.simps) simp
  next
    case False
    have rem: "sint (c_rem a b) = sint a mod sint b"
      using "1.prems" by (simp add: sint_c_rem smod_int_alt_def sgn_if)
    have "0 \<le> sint (c_rem a b)"
      using "1.prems" False sint_nonzero [OF False] by (simp add: rem)
    with "1.IH" [OF False "1.prems"(2)]
    have "sint (fast_gcd_loop b (c_rem a b)) = gcd (sint b) (sint a mod sint b)"
      by (simp add: rem)
    also have "\<dots> = gcd (sint a) (sint b)"
      by (rule gcd_red_int [symmetric])
    finally show ?thesis
      using False by (subst fast_gcd_loop.simps) simp
  qed
qed

lemma sint_neg_int64:
  fixes a :: int64_t
  assumes "a \<noteq> INT64_MIN"
  shows "sint (- a) = - sint a"
proof -
  have "sint a \<noteq> - (2 ^ 63)"
  proof
    assume "sint a = - (2 ^ 63)"
    then have "sint a = sint INT64_MIN" by (simp add: INT64_MIN_def)
    then have "a = INT64_MIN" by (rule signed_word_eqI)
    with assms show False by simp
  qed
  moreover have "- (2 ^ 63) \<le> sint a" "sint a < 2 ^ 63"
    using sint_ge [of a] sint_lt [of a] by simp_all
  ultimately have "- (2 ^ 63) \<le> - sint a \<and> - sint a < 2 ^ 63" by simp
  then show ?thesis
    by (simp add: sint_word_ariths signed_take_bit_int_eq_self)
qed

lemma fast_gcd_general:
  assumes "a \<noteq> INT64_MIN" "b \<noteq> INT64_MIN"
  shows "sint (fast_gcd a b) = gcd \<bar>sint a\<bar> \<bar>sint b\<bar>"
proof -
  define a' where "a' = (if a <s 0 then - a else a)"
  define b' where "b' = (if b <s 0 then - b else b)"
  have a': "sint a' = \<bar>sint a\<bar>"
    using sint_neg_int64 [OF assms(1)] by (simp add: a'_def word_sless_alt)
  have b': "sint b' = \<bar>sint b\<bar>"
    using sint_neg_int64 [OF assms(2)] by (simp add: b'_def word_sless_alt)
  have "fast_gcd a b = fast_gcd_loop a' b'"
    by (simp add: fast_gcd_def a'_def b'_def)
  moreover have "sint (fast_gcd_loop a' b') = gcd (sint a') (sint b')"
    by (rule fast_gcd_loop_nonneg) (simp_all add: a' b')
  ultimately show ?thesis by (simp only: a' b')
qed

lemma gcd_examples:
  "gcd (54 :: int) 24 = 6" "gcd (8 :: int) 12 = 4"
  by code_simp+

lemma fast_gcd_min_zero:
  "fast_gcd INT64_MIN 0 = INT64_MIN"
  by (simp add: fast_gcd_def INT64_MIN_def fast_gcd_loop.simps word_sless_alt)

lemma gcd_min_zero_not_int64:
  fixes r :: int64_t
  shows "sint r \<noteq> gcd \<bar>sint INT64_MIN\<bar> \<bar>sint (0 :: int64_t)\<bar>"
  using sint_lt [of r] by (simp add: INT64_MIN_def)

text \<open>
  Claim C4 quantifies over every pair of 64-bit signed integers. At
  \<open>a = INT64_MIN = -2^63\<close> the absolute value \<open>2^63\<close> is not an \<open>int64_t\<close>: the
  negation \<open>a = -a\<close> leaves \<open>a\<close> negative (in C it is a signed overflow), and
  \<open>fast_gcd(INT64_MIN, 0)\<close> is \<open>-2^63\<close>, whereas the greatest common divisor of
  \<open>|INT64_MIN|\<close> and \<open>0\<close> is \<open>2^63\<close>, which no \<open>int64_t\<close> result can equal
  (\<open>gcd_min_zero_not_int64\<close>).
\<close>

theorem fast_gcd_int64_min_counterexample:
  "sint (fast_gcd (- 9223372036854775808) 0) = - 9223372036854775808 \<and>
   gcd \<bar>sint (- 9223372036854775808 :: int64_t)\<bar> \<bar>sint (0 :: int64_t)\<bar> = 9223372036854775808 \<and>
   sint (fast_gcd (- 9223372036854775808) 0)
     \<noteq> gcd \<bar>sint (- 9223372036854775808 :: int64_t)\<bar> \<bar>sint (0 :: int64_t)\<bar>"
  using fast_gcd_min_zero by (simp add: INT64_MIN_def)

text \<open>
  Claim C4, amended. For every pair of 64-bit signed integers \<open>a\<close> and \<open>b\<close> other than
  \<open>INT64_MIN\<close>, \<open>fast_gcd(a, b)\<close> is the greatest common divisor of \<open>|a|\<close> and \<open>|b|\<close>,
  computed by the Euclidean algorithm (which terminates on every input), with
  \<open>gcd(0, 0) = 0\<close>; in particular \<open>gcd(54, 24) = 6\<close> and \<open>gcd(-8, 12) = 4\<close>.
\<close>

theorem fast_gcd_euclid:
  "(a \<noteq> INT64_MIN \<and> b \<noteq> INT64_MIN \<longrightarrow> sint (fast_gcd a b) = gcd \<bar>sint a\<bar> \<bar>sint b\<bar>) \<and>
   fast_gcd 0 0 = 0 \<and> fast_gcd 54 24 = 6 \<and> fast_gcd (- 8) 12 = 4"
proof -
  have g00: "fast_gcd 0 0 = 0"
    by (simp add: fast_gcd_def fast_gcd_loop.simps)
  have "sint (fast_gcd 54 24) = sint (6 :: int64_t)"
    using fast_gcd_general [of 54 24] by (simp add: INT64_MIN_def gcd_examples)
  then have g1: "fast_gcd 54 24 = 6" by (rule signed_word_eqI)
  have "sint (fast_gcd (- 8) 12) = sint (4 :: int64_t)"
    using fast_gcd_general [of "- 8" 12] by (simp add: INT64_MIN_def gcd_examples)
  then have g2: "fast_gcd (- 8) 12 = 4" by (rule signed_word_eqI)
  show ?thesis
    using fast_gcd_general [of a b] by (simp add: g00 g1 g2)
qed

theorem fast_gcd_euclid_witness:
  "(- 8 :: int64_t) \<noteq> INT64_MIN \<and> (12 :: int64_t) \<noteq> INT64_MIN \<and>
   sint (fast_gcd (- 8) 12) = 4 \<and> gcd \<bar>sint (- 8 :: int64_t)\<bar> \<bar>sint (12 :: int64_t)\<bar> = 4"
  using fast_gcd_euclid [of "- 8" 12] by (simp add: INT64_MIN_def gcd_examples)

section \<open>fast_string_hash\<close>

lemma fast_string_hash_loop_foldl:
  assumes "unat len \<le> length s \<or> (\<exists>k < length s. s ! k = NUL \<and> unat i \<le> k)"
  shows "fast_string_hash_loop s len i h =
         foldl (\<lambda>h b. (h XOR of_char b) * FNV_prime) h
           (takeWhile (\<lambda>c. c \<noteq> NUL) (drop (unat i) (take (unat len) s)))"
  using assms
proof (induction s len i h rule: fast_string_hash_loop.induct)
  case (1 s len i h)
  show ?case
  proof (cases "i < len")
    case False
    then have "unat len \<le> unat i" by (simp add: word_less_nat_alt)
    with False show ?thesis by (subst fast_string_hash_loop.simps) simp
  next
    case True
    then have lt: "unat i < unat len" by (simp add: word_less_nat_alt)
    have suc: "unat (i + 1) = Suc (unat i)" by (rule size_t_loop_step [OF True])
    have in_obj: "unat i < length s"
      using "1.prems" lt by auto
    then have in_take: "unat i < length (take (unat len) s)" using lt by simp
    have split: "drop (unat i) (take (unat len) s) = s ! unat i # drop (Suc (unat i)) (take (unat len) s)"
      using Cons_nth_drop_Suc [OF in_take] lt by simp
    show ?thesis
    proof (cases "s ! unat i = NUL")
      case nul: True
      then show ?thesis
        by (subst fast_string_hash_loop.simps) (simp add: split)
    next
      case nonnul: False
      have inv: "unat len \<le> length s \<or> (\<exists>k < length s. s ! k = NUL \<and> unat (i + 1) \<le> k)"
      proof (cases "unat len \<le> length s")
        case True
        then show ?thesis by simp
      next
        case False
        with "1.prems" obtain k where k: "k < length s" "s ! k = NUL" "unat i \<le> k" by auto
        with nonnul have "k \<noteq> unat i" by auto
        with k have "unat (i + 1) \<le> k" by (simp add: suc)
        with k show ?thesis by auto
      qed
      have "fast_string_hash_loop s len i h
            = fast_string_hash_loop s len (i + 1) ((h XOR of_char (s ! unat i)) * FNV_prime)"
        using True nonnul by (subst fast_string_hash_loop.simps) simp
      also have "\<dots> = foldl (\<lambda>h b. (h XOR of_char b) * FNV_prime)
                          ((h XOR of_char (s ! unat i)) * FNV_prime)
                          (takeWhile (\<lambda>c. c \<noteq> NUL) (drop (unat (i + 1)) (take (unat len) s)))"
        using True nonnul inv by (intro "1.IH") simp_all
      also have "\<dots> = foldl (\<lambda>h b. (h XOR of_char b) * FNV_prime) h
                          (takeWhile (\<lambda>c. c \<noteq> NUL) (drop (unat i) (take (unat len) s)))"
        using nonnul by (simp add: split suc)
      finally show ?thesis .
    qed
  qed
qed

text \<open>
  Claim C5. For every non-null byte span \<open>(str, length)\<close>, of which \<open>length\<close> bytes are
  readable or which holds a terminator, \<open>fast_string_hash\<close> is the 64-bit FNV-1a hash
  (offset basis \<open>14695981039346656037\<close>, prime \<open>1099511628211\<close>, XOR then multiply,
  wrapping) of the bytes of \<open>str\<close> up to index \<open>length\<close> or up to the first NUL,
  whichever comes first; a null input yields 0.
\<close>

theorem fast_string_hash_fnv1a:
  "(unat len \<le> length s \<or> NUL \<in> set s \<longrightarrow>
      fast_string_hash (Some s) len
        = fnv1a_64 (takeWhile (\<lambda>c. c \<noteq> NUL) (take (unat len) s))) \<and>
   fast_string_hash None len = 0"
proof -
  have "fast_string_hash (Some s) len
        = fnv1a_64 (takeWhile (\<lambda>c. c \<noteq> NUL) (take (unat len) s))"
    if "unat len \<le> length s \<or> NUL \<in> set s"
  proof -
    from that have "unat len \<le> length s \<or> (\<exists>k < length s. s ! k = NUL \<and> unat (0 :: size_t) \<le> k)"
      by (auto simp: in_set_conv_nth)
    from fast_string_hash_loop_foldl [OF this, of FNV_offset_basis]
    show ?thesis
      by (simp add: fast_string_hash_def fnv1a_64_def FNV_offset_basis_def FNV_prime_def)
  qed
  then show ?thesis by (simp add: fast_string_hash_def)
qed

theorem fast_string_hash_fnv1a_witness:
  "unat (2 :: size_t) \<le> length ''abc'' \<and>
   fast_string_hash (Some ''abc'') 2 = fnv1a_64 ''ab'' \<and>
   NUL \<in> set [CHR ''a'', NUL, CHR ''b''] \<and>
   fast_string_hash (Some [CHR ''a'', NUL, CHR ''b'']) 100 = fnv1a_64 ''a'' \<and>
   fnv1a_64 ''a'' = 12638187200555641996"
proof -
  have v: "fnv1a_64 ''a'' = 12638187200555641996"
    by (simp add: fnv1a_64_def)
  show ?thesis
    using fast_string_hash_fnv1a [of 2 "''abc''"]
      fast_string_hash_fnv1a [of 100 "[CHR ''a'', NUL, CHR ''b'']"]
    by (simp add: NUL_def v)
qed

text \<open>
  Claim C9. For a non-null span of length 0, or one whose first byte is NUL,
  \<open>fast_string_hash\<close> returns the FNV-1a offset basis \<open>14695981039346656037\<close>, which
  is not 0: a non-null empty input is told apart from the null input's result 0.
\<close>

theorem fast_string_hash_empty:
  "fast_string_hash (Some s) 0 = 14695981039346656037 \<and>
   fast_string_hash (Some (NUL # rest)) len = 14695981039346656037 \<and>
   (14695981039346656037 :: uint64_t) \<noteq> 0 \<and>
   fast_string_hash (Some s) 0 \<noteq> fast_string_hash None len' \<and>
   fast_string_hash (Some (NUL # rest)) len \<noteq> fast_string_hash None len'"
proof -
  have a: "fast_string_hash (Some s) 0 = 14695981039346656037"
    by (simp add: fast_string_hash_def fast_string_hash_loop.simps FNV_offset_basis_def)
  have b: "fast_string_hash (Some (NUL # rest)) len = 14695981039346656037"
    by (simp add: fast_string_hash_def fast_string_hash_loop.simps FNV_offset_basis_def)
  have c: "fast_string_hash None len' = 0"
    by (simp add: fast_string_hash_def)
  show ?thesis by (simp add: a b c)
qed

theorem fast_string_hash_empty_witness:
  "fast_string_hash (Some ''abc'') 0 = 14695981039346656037 \<and>
   fast_string_hash (Some [NUL, CHR ''x'']) 2 = 14695981039346656037 \<and>
   fast_string_hash (Some ''abc'') 0 \<noteq> fast_string_hash None 3"
  using fast_string_hash_empty [of "''abc''" "[CHR ''x'']" 2 3]
  by blast

section \<open>fast_memory_compare\<close>

lemma memcmp_bytes_refl:
  "memcmp_bytes xs xs = 0"
  by (induction xs) simp_all

lemma memcmp_bytes_antisym:
  "memcmp_bytes ys xs = - memcmp_bytes xs ys"
  by (induction xs ys rule: memcmp_bytes.induct) auto

lemma memcmp_bytes_zero_iff:
  assumes "length xs = length ys"
  shows "memcmp_bytes xs ys = 0 \<longleftrightarrow> xs = ys"
  using assms
proof (induction xs ys rule: memcmp_bytes.induct)
  case (1 x xs y ys)
  have "uint x - uint y = 0 \<longleftrightarrow> x = y"
    by (auto simp: word_uint_eq_iff)
  with 1 show ?case by auto
qed simp_all

lemma memcmp_bytes_range:
  "- 255 \<le> memcmp_bytes xs ys \<and> memcmp_bytes xs ys \<le> 255"
proof (induction xs ys rule: memcmp_bytes.induct)
  case (1 x xs y ys)
  have "0 \<le> uint x" "uint x < 256" "0 \<le> uint y" "uint y < 256"
    using uint_lt2p [of x] uint_lt2p [of y] by simp_all
  then have "- 255 \<le> uint x - uint y \<and> uint x - uint y \<le> 255" by linarith
  with 1 show ?case by simp
qed simp_all

text \<open>
  The sign of the model's \<open>memcmp\<close> is the lexicographic order of the two spans read
  as sequences of unsigned bytes, which is what ISO C prescribes.
\<close>

lemma memcmp_bytes_sign:
  assumes "length xs = length ys"
  shows "memcmp_bytes xs ys < 0 \<longleftrightarrow> (xs, ys) \<in> lexord {(x, y). x < y}"
  using assms
proof (induction xs ys rule: memcmp_bytes.induct)
  case (1 x xs y ys)
  have "uint x - uint y < 0 \<longleftrightarrow> x < y"
    by (simp add: word_less_def)
  with 1 show ?case by (auto simp: word_less_def)
qed simp_all

text \<open>
  Claim C7 says that the null-pointer sentinel is distinct from every value returned
  as an ordering result. The sentinel is \<open>TASK_OPS_ERROR_NULL_POINTER = -1\<close>, and
  \<open>-1\<close> is also what comparing the one-byte spans \<open>{1}\<close> and \<open>{2}\<close> returns (the
  difference of the bytes; an implementation of \<open>memcmp\<close> that returns only
  \<open>-1\<close>, \<open>0\<close> or \<open>1\<close> gives \<open>-1\<close> there as well).
\<close>

theorem fast_memory_compare_sentinel_counterexample:
  "fast_memory_compare (Some [1]) (Some [2]) 1 = - 1 \<and>
   fast_memory_compare None (Some [2]) 1 = - 1 \<and>
   fast_memory_compare (Some [1]) (Some [2]) 1 = fast_memory_compare None (Some [2]) 1"
  by (simp add: fast_memory_compare_def memcmp_def TASK_OPS_ERROR_NULL_POINTER_def)

text \<open>
  Claim C7, amended. With both pointers non-null, \<open>fast_memory_compare(a, b, length)\<close>
  returns a three-way ordering signal over the first \<open>length\<close> bytes of the two spans:
  zero exactly when they are equal (so \<open>compare(a, a, len) = 0\<close>), negative exactly
  when \<open>a\<close>'s bytes come first in the lexicographic order of unsigned bytes, and
  antisymmetric in sign with \<open>compare(b, a, len)\<close>. When either pointer is null it
  returns the negative value \<open>-1\<close>, which is also a possible ordering result, so the
  result alone does not tell the two apart.
\<close>

theorem fast_memory_compare_ordering:
  "fast_memory_compare (Some a) (Some a) len = 0 \<and>
   sgn (fast_memory_compare (Some b) (Some a) len) = - sgn (fast_memory_compare (Some a) (Some b) len) \<and>
   (unat len \<le> length a \<and> unat len \<le> length b \<longrightarrow>
      (fast_memory_compare (Some a) (Some b) len = 0
         \<longleftrightarrow> take (unat len) a = take (unat len) b) \<and>
      (fast_memory_compare (Some a) (Some b) len < 0
         \<longleftrightarrow> (take (unat len) a, take (unat len) b) \<in> lexord {(x, y). x < y})) \<and>
   (p = None \<or> q = None \<longrightarrow>
      fast_memory_compare p q len = TASK_OPS_ERROR_NULL_POINTER \<and>
      fast_memory_compare p q len = - 1 \<and> fast_memory_compare p q len < 0)"
proof -
  have refl: "fast_memory_compare (Some a) (Some a) len = 0"
    by (simp add: fast_memory_compare_def memcmp_def memcmp_bytes_refl)
  have anti: "fast_memory_compare (Some b) (Some a) len = - fast_memory_compare (Some a) (Some b) len"
    by (simp add: fast_memory_compare_def memcmp_def memcmp_bytes_antisym [of "take (unat len) a"])
  have ord: "(fast_memory_compare (Some a) (Some b) len = 0
         \<longleftrightarrow> take (unat len) a = take (unat len) b) \<and>
      (fast_memory_compare (Some a) (Some b) len < 0
         \<longleftrightarrow> (take (unat len) a, take (unat len) b) \<in> lexord {(x, y). x < y})"
    if "unat len \<le> length a" "unat len \<le> length b"
  proof -
    have "length (take (unat len) a) = length (take (unat len) b)" using that by simp
    from memcmp_bytes_zero_iff [OF this] memcmp_bytes_sign [OF this]
    show ?thesis by (simp add: fast_memory_compare_def memcmp_def)
  qed
  have null: "fast_memory_compare p q len = TASK_OPS_ERROR_NULL_POINTER \<and>
      fast_memory_compare p q len = - 1 \<and> fast_memory_compare p q len < 0"
    if "p = None \<or> q = None"
    using that
    by (auto simp: fast_memory_compare_def TASK_OPS_ERROR_NULL_POINTER_def split: option.splits)
  from refl anti ord null show ?thesis
    by (simp only: sgn_minus) blast
qed

theorem fast_memory_compare_ordering_witness:
  "unat (2 :: size_t) \<le> length [1, 5, 9 :: byte] \<and> unat (2 :: size_t) \<le> length [1, 7, 0 :: byte] \<and>
   fast_memory_compare (Some [1, 5, 9]) (Some [1, 7, 0]) 2 = - 2 \<and>
   fast_memory_compare (Some [1, 7, 0]) (Some [1, 5, 9]) 2 = 2 \<and>
   ([1, 5 :: byte], [1, 7 :: byte]) \<in> lexord {(x, y). x < y} \<and>
   fast_memory_compare None (Some [1, 7, 0]) 2 = - 1"
proof -
  have v: "fast_memory_compare (Some [1, 5, 9]) (Some [1, 7, 0]) 2 = - 2"
    "fast_memory_compare (Some [1, 7, 0]) (Some [1, 5, 9]) 2 = 2"
    by (simp_all add: fast_memory_compare_def memcmp_def)
  show ?thesis
    using fast_memory_compare_ordering [of "[1, 5, 9]" 2 "[1, 7, 0]" None "Some [1, 7, 0]"]
    by (simp add: v)
qed

section \<open>fast_string_reverse\<close>

lemma unat_len_minus:
  fixes i len :: size_t
  assumes "i < len"
  shows "unat (len - 1 - i) = unat len - 1 - unat i"
proof -
  have lt: "unat i < unat len" using assms by (simp add: word_less_nat_alt)
  then have "1 \<le> len" by (simp add: word_le_nat_alt)
  then have one: "unat (len - 1) = unat len - 1" by (simp add: unat_sub)
  have "i \<le> len - 1" using lt one by (simp add: word_le_nat_alt)
  then show ?thesis by (simp add: unat_sub one)
qed

lemma fast_string_reverse_loop_nth:
  assumes "unat len \<le> length str" "unat i \<le> unat len div 2"
  shows "length (fast_string_reverse_loop str len i) = length str \<and>
         (\<forall>k < length str.
            fast_string_reverse_loop str len i ! k =
              (if unat i \<le> k \<and> k < unat len - unat i then str ! (unat len - 1 - k) else str ! k))"
  using assms
proof (induction str len i rule: fast_string_reverse_loop.induct)
  case (1 str len i)
  have half: "unat (len div 2) = unat len div 2" by (simp add: unat_div)
  show ?case
  proof (cases "i < len div 2")
    case False
    then have "unat i = unat len div 2"
      using "1.prems"(2) by (simp add: word_less_nat_alt half)
    then have mid: "unat i \<le> k \<and> k < unat len - unat i \<Longrightarrow> unat len - Suc k = k" for k
      by presburger
    from False show ?thesis
      by (subst (1 2) fast_string_reverse_loop.simps) (auto simp: mid)
  next
    case True
    then have lt: "unat i < unat len div 2" by (simp add: word_less_nat_alt half)
    then have "i < len" by (simp add: word_less_nat_alt)
    then have opp: "unat (len - 1 - i) = unat len - 1 - unat i" by (rule unat_len_minus)
    have suc: "unat (i + 1) = Suc (unat i)" by (rule size_t_loop_step [OF True])
    define a where "a = unat i"
    define b where "b = unat len - 1 - unat i"
    define str2 where "str2 = str[a := str ! b, b := str ! a]"
    have ab: "a < b" "b < unat len" "b < length str" "a < length str"
      using lt "1.prems"(1) by (auto simp: a_def b_def)
    have unfold: "fast_string_reverse_loop str len i = fast_string_reverse_loop str2 len (i + 1)"
      using True
      by (subst fast_string_reverse_loop.simps) (simp add: Let_def opp str2_def a_def b_def)
    have len2: "length str2 = length str" by (simp add: str2_def)
    have IH: "length (fast_string_reverse_loop str2 len (i + 1)) = length str2 \<and>
         (\<forall>k < length str2.
            fast_string_reverse_loop str2 len (i + 1) ! k =
              (if unat (i + 1) \<le> k \<and> k < unat len - unat (i + 1)
               then str2 ! (unat len - 1 - k) else str2 ! k))"
      using "1.prems" lt
      by (intro "1.IH" [OF True]) (simp_all add: opp str2_def a_def b_def suc)
    have r1: "(unat i \<le> k \<and> k < unat len - unat i) = (a \<le> k \<and> k \<le> b)" for k
      using lt by (auto simp: a_def b_def)
    have r2: "(unat (i + 1) \<le> k \<and> k < unat len - unat (i + 1)) = (a < k \<and> k < b)" for k
      using lt by (auto simp: a_def b_def suc)
    have mirror: "unat len - 1 - a = b" "unat len - 1 - b = a"
      using lt by (auto simp: a_def b_def)
    have inner: "a < unat len - 1 - k \<and> unat len - 1 - k < b" if "a < k" "k < b" for k
      using that lt by (auto simp: a_def b_def)
    have "fast_string_reverse_loop str2 len (i + 1) ! k =
              (if unat i \<le> k \<and> k < unat len - unat i then str ! (unat len - 1 - k) else str ! k)"
      if k: "k < length str" for k
    proof -
      from IH k len2 have eq: "fast_string_reverse_loop str2 len (i + 1) ! k =
              (if a < k \<and> k < b then str2 ! (unat len - 1 - k) else str2 ! k)"
        by (simp only: r2)
      consider "k = a" | "k = b" | "a < k" "k < b" | "k < a \<or> b < k" by linarith
      then show ?thesis
      proof cases
        case 1
        have "str2 ! a = str ! b" using ab by (simp add: str2_def)
        with 1 eq ab show ?thesis by (simp only: r1 mirror) simp
      next
        case 2
        have "str2 ! b = str ! a" using ab by (simp add: str2_def)
        with 2 eq ab show ?thesis by (simp only: r1 mirror) simp
      next
        case 3
        from inner [OF 3] have "str2 ! (unat len - 1 - k) = str ! (unat len - 1 - k)"
          by (simp add: str2_def)
        with 3 eq show ?thesis by (simp only: r1) simp
      next
        case 4
        then have "str2 ! k = str ! k" using ab by (auto simp: str2_def)
        with 4 eq ab show ?thesis by (simp only: r1) auto
      qed
    qed
    with IH len2 show ?thesis by (simp add: unfold)
  qed
qed

lemma fast_string_reverse_loop_rev:
  assumes "unat len \<le> length str"
  shows "fast_string_reverse_loop str len 0 = rev (take (unat len) str) @ drop (unat len) str"
proof (rule nth_equalityI)
  from fast_string_reverse_loop_nth [OF assms, of 0]
  have len: "length (fast_string_reverse_loop str len 0) = length str"
    and nth: "\<And>k. k < length str \<Longrightarrow> fast_string_reverse_loop str len 0 ! k =
              (if k < unat len then str ! (unat len - 1 - k) else str ! k)"
    by simp_all
  show "length (fast_string_reverse_loop str len 0)
        = length (rev (take (unat len) str) @ drop (unat len) str)"
    using assms by (simp add: len)
  fix k assume "k < length (fast_string_reverse_loop str len 0)"
  then have k: "k < length str" by (simp add: len)
  show "fast_string_reverse_loop str len 0 ! k
        = (rev (take (unat len) str) @ drop (unat len) str) ! k"
  proof (cases "k < unat len")
    case True
    then have "(rev (take (unat len) str) @ drop (unat len) str) ! k
               = rev (take (unat len) str) ! k"
      using assms by (simp add: nth_append)
    also have "\<dots> = str ! (unat len - 1 - k)"
      using True assms by (simp add: rev_nth)
    finally show ?thesis using True k by (simp add: nth)
  next
    case False
    then have "(rev (take (unat len) str) @ drop (unat len) str) ! k = str ! k"
      using assms k by (simp add: nth_append)
    with False k show ?thesis by (simp add: nth)
  qed
qed

lemma fast_string_reverse_eq:
  assumes "unat len \<le> length buf"
  shows "fast_string_reverse (Some buf) len
         = Some (rev (take (unat len) buf) @ drop (unat len) buf)"
proof (cases "len \<le> 1")
  case True
  then have "unat len \<le> 1" by (simp add: word_le_nat_alt)
  then have "unat len = 0 \<or> unat len = 1" by linarith
  then have "rev (take (unat len) buf) = take (unat len) buf"
    by (cases buf) auto
  with True show ?thesis by (simp add: fast_string_reverse_def)
next
  case False
  then show ?thesis
    by (simp add: fast_string_reverse_def fast_string_reverse_loop_rev [OF assms])
qed

text \<open>
  Claim C8. For every non-null byte buffer and every length (within the buffer),
  applying the in-place reverse twice over the same \<open>(buffer, length)\<close> restores the
  buffer's original contents: one application reverses the first \<open>length\<close> bytes and
  leaves the others alone. With a length of zero or one the buffer is not changed.
\<close>

theorem fast_string_reverse_involution:
  assumes "unat len \<le> length buf"
  shows "fast_string_reverse (Some buf) len
           = Some (rev (take (unat len) buf) @ drop (unat len) buf) \<and>
         fast_string_reverse (fast_string_reverse (Some buf) len) len = Some buf \<and>
         (len \<le> 1 \<longrightarrow> fast_string_reverse (Some buf) len = Some buf)"
proof -
  let ?once = "rev (take (unat len) buf) @ drop (unat len) buf"
  have once: "fast_string_reverse (Some buf) len = Some ?once"
    by (rule fast_string_reverse_eq [OF assms])
  have l: "unat len \<le> length ?once" using assms by simp
  have "fast_string_reverse (Some ?once) len
        = Some (rev (take (unat len) ?once) @ drop (unat len) ?once)"
    by (rule fast_string_reverse_eq [OF l])
  also have "rev (take (unat len) ?once) @ drop (unat len) ?once = buf"
    using assms by simp
  finally have twice: "fast_string_reverse (fast_string_reverse (Some buf) len) len = Some buf"
    by (simp only: once)
  have noop: "len \<le> 1 \<longrightarrow> fast_string_reverse (Some buf) len = Some buf"
    by (simp add: fast_string_reverse_def)
  from once twice noop show ?thesis by blast
qed

theorem fast_string_reverse_involution_witness:
  "unat (5 :: size_t) \<le> length ''hello!'' \<and>
   fast_string_reverse (Some ''hello!'') 5 = Some ''olleh!'' \<and>
   fast_string_reverse (fast_string_reverse (Some ''hello!'') 5) 5 = Some ''hello!''"
proof -
  have h: "unat (5 :: size_t) \<le> length ''hello!''" by simp
  note t = fast_string_reverse_involution [OF h]
  from t have once: "fast_string_reverse (Some ''hello!'') 5 = Some ''olleh!''" by simp
  from t have twice: "fast_string_reverse (fast_string_reverse (Some ''hello!'') 5) 5 = Some ''hello!''"
    by blast
  from h once twice show ?thesis by blast
qed

section \<open>quicksort\<close>

subsection \<open>Index arithmetic that does not wrap\<close>

lemma sint32_pred:
  fixes i :: c_int
  assumes "- (2 ^ 31) < sint i"
  shows "sint (i - 1) = sint i - 1"
proof -
  have "sint i < 2 ^ 31" using sint_lt [of i] by simp
  then show ?thesis
    using assms by (simp add: sint_word_ariths signed_take_bit_int_eq_self)
qed

lemma sint32_succ_below:
  fixes i j :: c_int
  assumes "sint i < sint j"
  shows "sint (i + 1) = sint i + 1"
proof -
  have "sint j < 2 ^ 31" using sint_lt [of j] by simp
  with assms show ?thesis by (intro sint32_succ) simp
qed

subsection \<open>The partition loop\<close>

lemma quicksort_loop_step:
  "quicksort_loop arr pivot high j i =
     (if j <s high
      then (if arr ! nat (sint j) \<le>s pivot
            then quicksort_loop
                   (arr[nat (sint (i + 1)) := arr ! nat (sint j), nat (sint j) := arr ! nat (sint (i + 1))])
                   pivot high (j + 1) (i + 1)
            else quicksort_loop arr pivot high (j + 1) i)
      else (arr, i))"
  by (subst quicksort_loop.simps) (simp add: Let_def)

lemma quicksort_loop_frame:
  assumes "quicksort_loop arr pivot high j i = (arr', i')"
    and "0 \<le> low" "low - 1 \<le> sint i" "sint i < sint j" "sint high < int (length arr)"
  shows "length arr' = length arr \<and> mset arr' = mset arr \<and>
         (\<forall>n < length arr. int n < low \<or> sint high \<le> int n \<longrightarrow> arr' ! n = arr ! n) \<and>
         sint i \<le> sint i' \<and> sint i' - sint i \<le> max 0 (sint high - sint j)"
  using assms
proof (induction arr pivot high j i arbitrary: arr' i' rule: quicksort_loop.induct)
  case (1 arr pivot high j i)
  show ?case
  proof (cases "j <s high")
    case False
    with "1.prems"(1) show ?thesis by (subst (asm) quicksort_loop_step) auto
  next
    case True
    then have jh: "sint j < sint high" by (simp add: word_sless_alt)
    have sj: "sint (j + 1) = sint j + 1" by (rule sint32_succ_below [OF jh])
    show ?thesis
    proof (cases "arr ! nat (sint j) \<le>s pivot")
      case gt: False
      from "1.prems"(1) True gt
      have call: "quicksort_loop arr pivot high (j + 1) i = (arr', i')"
        by (subst (asm) quicksort_loop_step) simp
      from "1.IH"(2) [OF True gt call] "1.prems" jh show ?thesis by (simp add: sj)
    next
      case le: True
      have si: "sint (i + 1) = sint i + 1" by (rule sint32_succ_below [OF "1.prems"(4)])
      define a where "a = nat (sint (i + 1))"
      define b where "b = nat (sint j)"
      define arr2 where "arr2 = arr[a := arr ! b, b := arr ! a]"
      have ab: "a < length arr" "b < length arr" "int a = sint i + 1" "int b = sint j"
        using "1.prems" jh by (auto simp: a_def b_def si)
      from "1.prems"(1) True le
      have call: "quicksort_loop arr2 pivot high (j + 1) (i + 1) = (arr', i')"
        by (subst (asm) quicksort_loop_step) (simp add: arr2_def a_def b_def)
      have len2: "length arr2 = length arr" by (simp add: arr2_def)
      note IH = "1.IH"(1) [OF True le refl refl refl refl, folded a_def b_def, folded arr2_def]
      have "length arr' = length arr2 \<and> mset arr' = mset arr2 \<and>
         (\<forall>n < length arr2. int n < low \<or> sint high \<le> int n \<longrightarrow> arr' ! n = arr2 ! n) \<and>
         sint (i + 1) \<le> sint i' \<and> sint i' - sint (i + 1) \<le> max 0 (sint high - sint (j + 1))"
        using "1.prems" jh by (intro IH [OF call]) (simp_all add: len2 si sj)
      moreover have "mset arr2 = mset arr"
        using ab by (simp add: arr2_def mset_swap)
      moreover have "arr2 ! n = arr ! n" if "n < length arr" "int n < low \<or> sint high \<le> int n" for n
      proof -
        from that "1.prems" jh ab have "n \<noteq> a" "n \<noteq> b" by auto
        then show ?thesis by (simp add: arr2_def)
      qed
      ultimately show ?thesis using jh by (simp add: len2 si sj)
    qed
  qed
qed

lemma quicksort_loop_partitions:
  assumes "quicksort_loop arr pivot high j i = (arr', i')"
    and "0 \<le> low" "low - 1 \<le> sint i" "sint i < sint j" "sint high < int (length arr)"
    and "\<forall>n < length arr. low \<le> int n \<and> int n \<le> sint i \<longrightarrow> arr ! n \<le>s pivot"
    and "\<forall>n < length arr. sint i < int n \<and> int n < sint j \<longrightarrow> pivot <s arr ! n"
  shows "(\<forall>n < length arr'. low \<le> int n \<and> int n \<le> sint i' \<longrightarrow> arr' ! n \<le>s pivot) \<and>
         (\<forall>n < length arr'. sint i' < int n \<and> int n < sint high \<longrightarrow> pivot <s arr' ! n)"
  using assms
proof (induction arr pivot high j i arbitrary: arr' i' rule: quicksort_loop.induct)
  case (1 arr pivot high j i)
  show ?case
  proof (cases "j <s high")
    case False
    then have "sint high \<le> sint j" by (simp add: word_sless_alt)
    moreover from False "1.prems"(1) have "arr' = arr" "i' = i"
      by (subst (asm) quicksort_loop_step, simp)+
    ultimately show ?thesis using "1.prems" by auto
  next
    case True
    then have jh: "sint j < sint high" by (simp add: word_sless_alt)
    have sj: "sint (j + 1) = sint j + 1" by (rule sint32_succ_below [OF jh])
    show ?thesis
    proof (cases "arr ! nat (sint j) \<le>s pivot")
      case gt: False
      from "1.prems"(1) True gt
      have call: "quicksort_loop arr pivot high (j + 1) i = (arr', i')"
        by (subst (asm) quicksort_loop_step) simp
      have "\<forall>n < length arr. sint i < int n \<and> int n < sint (j + 1) \<longrightarrow> pivot <s arr ! n"
      proof (intro allI impI)
        fix n assume n: "n < length arr" "sint i < int n \<and> int n < sint (j + 1)"
        show "pivot <s arr ! n"
        proof (cases "int n = sint j")
          case True
          then have "n = nat (sint j)" by simp
          with gt show ?thesis by (simp add: word_sless_alt word_sle_eq)
        next
          case False
          with n "1.prems"(7) show ?thesis by (simp add: sj)
        qed
      qed
      with "1.prems" show ?thesis
        by (intro "1.IH"(2) [OF True gt call]) (simp_all add: sj)
    next
      case le: True
      have si: "sint (i + 1) = sint i + 1" by (rule sint32_succ_below [OF "1.prems"(4)])
      define a where "a = nat (sint (i + 1))"
      define b where "b = nat (sint j)"
      define arr2 where "arr2 = arr[a := arr ! b, b := arr ! a]"
      have ab: "a < length arr" "b < length arr" "int a = sint i + 1" "int b = sint j" "a \<le> b"
        using "1.prems" jh by (auto simp: a_def b_def si)
      from "1.prems"(1) True le
      have call: "quicksort_loop arr2 pivot high (j + 1) (i + 1) = (arr', i')"
        by (subst (asm) quicksort_loop_step) (simp add: arr2_def a_def b_def)
      have len2: "length arr2 = length arr" by (simp add: arr2_def)
      have at_a: "arr2 ! a = arr ! b" using ab by (cases "a = b") (simp_all add: arr2_def)
      have at_b: "arr2 ! b = arr ! a" using ab by (simp add: arr2_def)
      have other: "arr2 ! n = arr ! n" if "n \<noteq> a" "n \<noteq> b" for n
        using that by (simp add: arr2_def)
      have small: "\<forall>n < length arr2. low \<le> int n \<and> int n \<le> sint (i + 1) \<longrightarrow> arr2 ! n \<le>s pivot"
      proof (intro allI impI)
        fix n assume n: "n < length arr2" "low \<le> int n \<and> int n \<le> sint (i + 1)"
        show "arr2 ! n \<le>s pivot"
        proof (cases "n = a")
          case True
          with at_a le show ?thesis by (simp add: b_def)
        next
          case False
          with n ab have "int n \<le> sint i" "n \<noteq> b" by (auto simp: si)
          with n False "1.prems"(6) show ?thesis by (simp add: other len2)
        qed
      qed
      have large: "\<forall>n < length arr2. sint (i + 1) < int n \<and> int n < sint (j + 1) \<longrightarrow> pivot <s arr2 ! n"
      proof (intro allI impI)
        fix n assume n: "n < length arr2" "sint (i + 1) < int n \<and> int n < sint (j + 1)"
        show "pivot <s arr2 ! n"
        proof (cases "n = b")
          case True
          with n ab have "sint i < int a \<and> int a < sint j" by (auto simp: si sj)
          with "1.prems"(7) ab have "pivot <s arr ! a" by blast
          with True at_b show ?thesis by simp
        next
          case False
          with n ab have "n \<noteq> a" "sint i < int n \<and> int n < sint j" by (auto simp: si sj)
          with n False "1.prems"(7) show ?thesis by (simp add: other len2)
        qed
      qed
      note IH = "1.IH"(1) [OF True le refl refl refl refl, folded a_def b_def, folded arr2_def]
      show ?thesis
        using "1.prems" jh small large by (intro IH [OF call]) (simp_all add: len2 si sj)
    qed
  qed
qed

subsection \<open>The partition step of one call\<close>

lemma quicksort_unfold:
  "quicksort arr low high =
     (if low <s high
      then (case quicksort_partition arr low high of
              (arr', p) \<Rightarrow>
                Option.bind (quicksort arr' low (p - 1)) (\<lambda>arr. quicksort arr (p + 1) high))
      else Some arr)"
  by (subst quicksort.simps) (simp add: quicksort_partition_def Let_def split: prod.split)

lemma quicksort_partition_spec:
  assumes part: "quicksort_partition arr low high = (arr', p)"
    and low: "0 \<le> sint low" and lt: "low <s high" and high: "sint high < int (length arr)"
  shows "sint low \<le> sint p \<and> sint p \<le> sint high \<and>
         length arr' = length arr \<and> mset arr' = mset arr \<and>
         (\<forall>n < length arr. int n < sint low \<or> sint high < int n \<longrightarrow> arr' ! n = arr ! n) \<and>
         arr' ! nat (sint p) = arr ! nat (sint high) \<and>
         (\<forall>n < length arr. sint low \<le> int n \<and> int n < sint p \<longrightarrow> arr' ! n \<le>s arr ! nat (sint high)) \<and>
         (\<forall>n < length arr. sint p < int n \<and> int n \<le> sint high \<longrightarrow> arr ! nat (sint high) <s arr' ! n)"
proof -
  from lt have lh: "sint low < sint high" by (simp add: word_sless_alt)
  have sl: "sint (low - 1) = sint low - 1" using low by (intro sint32_pred) simp
  define pivot where "pivot = arr ! nat (sint high)"
  obtain arr1 i1 where loop: "quicksort_loop arr pivot high low (low - 1) = (arr1, i1)"
    by (cases "quicksort_loop arr pivot high low (low - 1)")
  have start: "sint low - 1 \<le> sint (low - 1)" "sint (low - 1) < sint low" by (simp_all add: sl)
  from quicksort_loop_frame [OF loop low start high]
  have frame: "length arr1 = length arr" "mset arr1 = mset arr"
    "\<And>n. n < length arr \<Longrightarrow> int n < sint low \<or> sint high \<le> int n \<Longrightarrow> arr1 ! n = arr ! n"
    and i1: "sint low - 1 \<le> sint i1" "sint i1 \<le> sint high - 1"
    using lh by (auto simp: sl)
  have s1: "sint (i1 + 1) = sint i1 + 1"
    using i1 sint_lt [of high] by (intro sint32_succ) simp
  define a where "a = nat (sint (i1 + 1))"
  define h where "h = nat (sint high)"
  from part loop have res: "arr' = arr1[a := arr1 ! h, h := arr1 ! a]" "p = i1 + 1"
    by (auto simp: quicksort_partition_def pivot_def [symmetric] Let_def a_def h_def)
  have sp: "sint p = sint i1 + 1" by (simp add: res(2) s1)
  have vac1: "\<forall>n < length arr. sint low \<le> int n \<and> int n \<le> sint (low - 1) \<longrightarrow> arr ! n \<le>s pivot"
    by (auto simp: sl)
  have vac2: "\<forall>n < length arr. sint (low - 1) < int n \<and> int n < sint low \<longrightarrow> pivot <s arr ! n"
    by (auto simp: sl)
  from quicksort_loop_partitions [OF loop low start high vac1 vac2]
  have parts: "\<And>n. n < length arr \<Longrightarrow> sint low \<le> int n \<and> int n \<le> sint i1 \<Longrightarrow> arr1 ! n \<le>s pivot"
    "\<And>n. n < length arr \<Longrightarrow> sint i1 < int n \<and> int n < sint high \<Longrightarrow> pivot <s arr1 ! n"
    by (auto simp: frame(1))
  have ah: "a \<le> h" "h < length arr" "a < length arr" "int a = sint p" "int h = sint high"
    using i1 low lh high by (auto simp: a_def h_def sp s1)
  have piv: "arr1 ! h = pivot"
    using frame(3) [of h] ah by (simp add: pivot_def h_def)
  have at_a: "arr' ! a = pivot"
    using ah piv by (cases "a = h") (simp_all add: res(1) frame(1))
  have at_h: "arr' ! h = arr1 ! a"
    using ah by (simp add: res(1) frame(1))
  have other: "arr' ! n = arr1 ! n" if "n \<noteq> a" "n \<noteq> h" for n
    using that by (simp add: res(1))
  have "mset arr' = mset arr"
    using ah by (simp add: res(1) mset_swap frame(1,2))
  moreover have "length arr' = length arr" by (simp add: res(1) frame(1))
  moreover have "arr' ! n = arr ! n" if "n < length arr" "int n < sint low \<or> sint high < int n" for n
  proof -
    from that ah i1 have "n \<noteq> a" "n \<noteq> h" by (auto simp: sp)
    with that frame(3) [of n] show ?thesis by (auto simp: other)
  qed
  moreover have "arr' ! nat (sint p) = arr ! nat (sint high)"
    using at_a ah by (simp add: pivot_def a_def res(2))
  moreover have "arr' ! n \<le>s arr ! nat (sint high)"
    if "n < length arr" "sint low \<le> int n \<and> int n < sint p" for n
  proof -
    from that ah have "n \<noteq> a" "n \<noteq> h" "int n \<le> sint i1" by (auto simp: sp)
    with that parts(1) [of n] show ?thesis by (simp add: other pivot_def)
  qed
  moreover have "arr ! nat (sint high) <s arr' ! n"
    if "n < length arr" "sint p < int n \<and> int n \<le> sint high" for n
  proof (cases "n = h")
    case True
    with that ah have "sint i1 < int a \<and> int a < sint high" by (auto simp: sp)
    from parts(2) [OF ah(3) this] True at_h show ?thesis by (simp add: pivot_def)
  next
    case False
    with that ah have "n \<noteq> a" "sint i1 < int n \<and> int n < sint high" by (auto simp: sp)
    with that False parts(2) [of n] show ?thesis by (simp add: other pivot_def)
  qed
  ultimately show ?thesis
    using i1 by (simp add: sp)
qed

subsection \<open>Permuting a range keeps what holds of all its elements\<close>

lemma range_elements_preserved:
  fixes P :: "'a \<Rightarrow> bool"
  assumes len: "length r = length arr" and perm: "mset r = mset arr"
    and outer: "\<forall>n < length arr. int n < low \<or> high < int n \<longrightarrow> r ! n = arr ! n"
    and low: "0 \<le> low" and high: "high < int (length arr)"
    and all: "\<forall>n < length arr. low \<le> int n \<and> int n \<le> high \<longrightarrow> P (arr ! n)"
  shows "\<forall>n < length arr. low \<le> int n \<and> int n \<le> high \<longrightarrow> P (r ! n)"
proof (cases "low \<le> high")
  case False
  then show ?thesis by auto
next
  case True
  define L where "L = nat low"
  define H where "H = nat (high + 1)"
  have LH: "L \<le> H" "H \<le> length arr" "int L = low" "int H = high + 1"
    using True low high by (auto simp: L_def H_def)
  define mid where "mid = (\<lambda>xs :: 'a list. take (H - L) (drop L xs))"
  have split: "xs = take L xs @ mid xs @ drop H xs" for xs :: "'a list"
  proof -
    have "drop L xs = take (H - L) (drop L xs) @ drop (H - L) (drop L xs)"
      by (rule append_take_drop_id [symmetric])
    also have "drop (H - L) (drop L xs) = drop H xs" using LH by simp
    finally have "take L xs @ drop L xs = take L xs @ mid xs @ drop H xs"
      by (simp add: mid_def)
    then show ?thesis by simp
  qed
  have pre: "take L r = take L arr"
  proof (rule nth_take_lemma)
    show "L \<le> length r" "L \<le> length arr" using LH len by simp_all
    fix i
    show "i < L \<longrightarrow> r ! i = arr ! i" using LH outer by auto
  qed
  have post: "drop H r = drop H arr"
  proof (rule nth_equalityI)
    show "length (drop H r) = length (drop H arr)" by (simp add: len)
    fix i assume "i < length (drop H r)"
    then have "H + i < length arr" by (simp add: len)
    moreover from this LH outer have "r ! (H + i) = arr ! (H + i)" by auto
    ultimately show "drop H r ! i = drop H arr ! i" using LH by (simp add: len)
  qed
  have parts: "mset xs = mset (take L xs) + mset (mid xs) + mset (drop H xs)" for xs :: "'a list"
  proof -
    have "mset xs = mset (take L xs @ mid xs @ drop H xs)"
      by (rule arg_cong [OF split])
    then show ?thesis by (simp only: mset_append add.assoc)
  qed
  have "mset (take L r) + mset (mid r) + mset (drop H r)
        = mset (take L arr) + mset (mid arr) + mset (drop H arr)"
    using perm by (simp only: parts [symmetric])
  then have "mset (mid r) = mset (mid arr)" by (simp add: pre post)
  then have sets: "set (mid r) = set (mid arr)" by (rule mset_eq_setD)
  have nth_mid: "mid xs ! (n - L) = xs ! n" if "L \<le> n" "n < H" "length xs = length arr" for xs n
    using that LH by (simp add: mid_def)
  have len_mid: "length (mid xs) = H - L" if "length xs = length arr" for xs
    using that LH by (simp add: mid_def)
  have P_mid: "P x" if "x \<in> set (mid arr)" for x
  proof -
    from that obtain i where i: "i < length (mid arr)" "mid arr ! i = x"
      by (auto simp: in_set_conv_nth)
    then have iH: "i < H - L" by (simp add: len_mid)
    then have "mid arr ! i = arr ! (L + i)" using nth_mid [of "L + i" arr] by simp
    moreover have "L + i < length arr" "low \<le> int (L + i) \<and> int (L + i) \<le> high"
      using iH LH by auto
    ultimately show ?thesis using all i by auto
  qed
  show ?thesis
  proof (intro allI impI)
    fix n assume n: "n < length arr" "low \<le> int n \<and> int n \<le> high"
    then have nb: "L \<le> n" "n < H" using LH by auto
    then have "r ! n = mid r ! (n - L)" using nth_mid [of n r] len by simp
    moreover have "n - L < length (mid r)" using nb len by (simp add: len_mid)
    ultimately have "r ! n \<in> set (mid r)" by (metis nth_mem)
    then show "P (r ! n)" using sets P_mid by simp
  qed
qed

subsection \<open>quicksort returns, sorts its range and touches nothing else\<close>

lemma quicksort_spec:
  assumes "0 \<le> sint low" "sint high < int (length arr)" "sint high < 2 ^ 31 - 1"
  shows "\<exists>r. quicksort arr low high = Some r \<and>
           length r = length arr \<and> mset r = mset arr \<and>
           (\<forall>n < length arr. int n < sint low \<or> sint high < int n \<longrightarrow> r ! n = arr ! n) \<and>
           (\<forall>m n. sint low \<le> int m \<and> m \<le> n \<and> int n \<le> sint high \<longrightarrow> r ! m \<le>s r ! n)"
  using assms
proof (induction "nat (sint high - sint low)" arbitrary: arr low high rule: less_induct)
  case less
  show ?case
  proof (cases "low <s high")
    case False
    then have same: "quicksort arr low high = Some arr" by (subst quicksort_unfold) simp
    from False have "sint high \<le> sint low" by (simp add: word_sless_alt)
    then have "arr ! m \<le>s arr ! n" if "sint low \<le> int m \<and> m \<le> n \<and> int n \<le> sint high" for m n
    proof -
      from that \<open>sint high \<le> sint low\<close> have "m = n" by auto
      then show ?thesis by simp
    qed
    then show ?thesis by (simp add: same)
  next
    case True
    then have lh: "sint low < sint high" by (simp add: word_sless_alt)
    obtain arr1 p where part: "quicksort_partition arr low high = (arr1, p)"
      by (cases "quicksort_partition arr low high")
    define pivot where "pivot = arr ! nat (sint high)"
    from quicksort_partition_spec [OF part less.prems(1) True less.prems(2)]
    have p: "sint low \<le> sint p" "sint p \<le> sint high"
      and len1: "length arr1 = length arr" and mset1: "mset arr1 = mset arr"
      and out1: "\<And>n. n < length arr \<Longrightarrow> int n < sint low \<or> sint high < int n \<Longrightarrow> arr1 ! n = arr ! n"
      and at_p: "arr1 ! nat (sint p) = pivot"
      and small1: "\<forall>n < length arr. sint low \<le> int n \<and> int n \<le> sint p - 1 \<longrightarrow> arr1 ! n \<le>s pivot"
      and large1: "\<forall>n < length arr. sint p + 1 \<le> int n \<and> int n \<le> sint high \<longrightarrow> pivot <s arr1 ! n"
      by (auto simp: pivot_def)
    have pm: "sint (p - 1) = sint p - 1"
      using p less.prems(1) by (intro sint32_pred) simp
    have pp: "sint (p + 1) = sint p + 1"
      using p less.prems(3) by (intro sint32_succ) simp
    have "nat (sint (p - 1) - sint low) < nat (sint high - sint low)"
      "sint (p - 1) < int (length arr1)" "sint (p - 1) < 2 ^ 31 - 1"
      using p lh less.prems by (simp_all add: pm len1)
    from less.hyps [OF this(1) less.prems(1) this(2,3)]
    obtain arr2 where q2: "quicksort arr1 low (p - 1) = Some arr2"
      and len2: "length arr2 = length arr" and mset2: "mset arr2 = mset arr1"
      and out2: "\<forall>n < length arr1. int n < sint low \<or> sint p - 1 < int n \<longrightarrow> arr2 ! n = arr1 ! n"
      and sorted2: "\<And>m n. sint low \<le> int m \<and> m \<le> n \<and> int n \<le> sint p - 1 \<Longrightarrow> arr2 ! m \<le>s arr2 ! n"
      by (auto simp: len1 pm)
    have "nat (sint high - sint (p + 1)) < nat (sint high - sint low)" "0 \<le> sint (p + 1)"
      "sint high < int (length arr2)"
      using p lh less.prems by (simp_all add: pp len2)
    from less.hyps [OF this less.prems(3)]
    obtain arr3 where q3: "quicksort arr2 (p + 1) high = Some arr3"
      and len3: "length arr3 = length arr" and mset3: "mset arr3 = mset arr2"
      and out3: "\<forall>n < length arr2. int n < sint p + 1 \<or> sint high < int n \<longrightarrow> arr3 ! n = arr2 ! n"
      and sorted3: "\<And>m n. sint p + 1 \<le> int m \<and> m \<le> n \<and> int n \<le> sint high \<Longrightarrow> arr3 ! m \<le>s arr3 ! n"
      by (auto simp: len2 pp)
    have res: "quicksort arr low high = Some arr3"
      using True part q2 q3 by (subst quicksort_unfold) simp
    have small2: "\<forall>n < length arr1. sint low \<le> int n \<and> int n \<le> sint p - 1 \<longrightarrow> arr2 ! n \<le>s pivot"
      using small1 p less.prems
      by (intro range_elements_preserved [OF _ mset2 out2]) (simp_all add: len1 len2)
    have large2: "\<forall>n < length arr. sint p + 1 \<le> int n \<and> int n \<le> sint high \<longrightarrow> pivot <s arr2 ! n"
      using large1 out2 by (auto simp: len1)
    have large3: "\<forall>n < length arr2. sint p + 1 \<le> int n \<and> int n \<le> sint high \<longrightarrow> pivot <s arr3 ! n"
      using large2 p less.prems
      by (intro range_elements_preserved [OF _ mset3 out3]) (simp_all add: len2 len3)
    have small3: "\<forall>n < length arr. sint low \<le> int n \<and> int n \<le> sint p - 1 \<longrightarrow> arr3 ! n \<le>s pivot"
      using small2 out3 by (auto simp: len1 len2)
    have at_p3: "arr3 ! nat (sint p) = pivot"
    proof -
      have "nat (sint p) < length arr" "int (nat (sint p)) = sint p" using p less.prems by auto
      with out2 out3 at_p show ?thesis by (auto simp: len1 len2)
    qed
    have outer: "arr3 ! n = arr ! n" if "n < length arr" "int n < sint low \<or> sint high < int n" for n
    proof -
      from that p have "arr3 ! n = arr2 ! n" using out3 by (auto simp: len2)
      also from that p have "arr2 ! n = arr1 ! n" using out2 by (auto simp: len1)
      also from that have "arr1 ! n = arr ! n" by (rule out1)
      finally show ?thesis .
    qed
    have sorted: "arr3 ! m \<le>s arr3 ! n"
      if mn: "sint low \<le> int m \<and> m \<le> n \<and> int n \<le> sint high" for m n
    proof -
      from mn less.prems have bounds: "m < length arr" "n < length arr" by auto
      have le_piv: "arr3 ! k \<le>s pivot" if "k < length arr" "sint low \<le> int k" "int k \<le> sint p" for k
      proof (cases "int k = sint p")
        case True
        then have "k = nat (sint p)" by simp
        with at_p3 show ?thesis by simp
      next
        case False
        with that small3 show ?thesis by simp
      qed
      have ge_piv: "pivot \<le>s arr3 ! k" if "k < length arr" "sint p \<le> int k" "int k \<le> sint high" for k
      proof (cases "int k = sint p")
        case True
        then have "k = nat (sint p)" by simp
        with at_p3 show ?thesis by simp
      next
        case False
        with that large3 have "pivot <s arr3 ! k" by (simp add: len2)
        then show ?thesis by (simp add: word_sless_alt word_sle_eq)
      qed
      consider "int n \<le> sint p - 1" | "sint p + 1 \<le> int m" | "int m \<le> sint p" "sint p \<le> int n"
        by linarith
      then show ?thesis
      proof cases
        case 1
        with mn have "arr2 ! m \<le>s arr2 ! n" by (intro sorted2) simp
        moreover from 1 mn bounds have "arr3 ! m = arr2 ! m" "arr3 ! n = arr2 ! n"
          using out3 by (auto simp: len2)
        ultimately show ?thesis by simp
      next
        case 2
        with mn show ?thesis by (intro sorted3) simp
      next
        case 3
        from le_piv [OF bounds(1)] ge_piv [OF bounds(2)] mn 3
        have "arr3 ! m \<le>s pivot" "pivot \<le>s arr3 ! n" by simp_all
        then show ?thesis by (simp add: word_sle_eq)
      qed
    qed
    show ?thesis
      using outer sorted by (simp add: res len3 mset3 mset2 mset1)
  qed
qed

subsection \<open>fast_array_sort\<close>

lemma quicksort_empty_range:
  "\<not> low <s high \<Longrightarrow> quicksort arr low high = Some arr"
  by (subst quicksort_unfold) simp

lemma fast_array_sort_unfold:
  assumes "\<not> len \<le> 1" "(ucast len :: c_int) - 1 = high"
  shows "fast_array_sort (Some a) len = map_option Some (quicksort a 0 high)"
  using assms by (simp add: fast_array_sort_def)

text \<open>
  Claim C3 says that for every non-null \<open>int64_t\<close> array of length \<open>n\<close> the sort
  leaves the array non-decreasing with the same elements. \<open>fast_array_sort\<close> takes the
  length as a \<open>size_t\<close> and passes \<open>(int)len - 1\<close> to \<open>quicksort\<close>: the conversion keeps
  only the low 32 bits. At the array of \<open>2^32 + 1\<close> elements holding a one followed by
  zeros, the test \<open>len <= 1\<close> fails, \<open>(int)len - 1\<close> is 0, \<open>quicksort(arr, 0, 0)\<close>
  returns at once, and the call returns with the array as it was: not non-decreasing.
\<close>

theorem fast_array_sort_truncates_length:
  "fast_array_sort (Some (1 # replicate (2 ^ 32) 0))
       (of_nat (length ((1 :: int64_t) # replicate (2 ^ 32) 0)))
     = Some (Some (1 # replicate (2 ^ 32) 0)) \<and>
   \<not> sorted (map sint ((1 :: int64_t) # replicate (2 ^ 32) 0))"
proof -
  have len: "of_nat (length ((1 :: int64_t) # replicate (2 ^ 32) 0)) = (4294967297 :: size_t)"
    by simp
  have big: "\<not> (4294967297 :: size_t) \<le> 1" by (simp add: word_le_nat_alt)
  have high: "(ucast (4294967297 :: size_t) :: c_int) - 1 = 0" by simp
  have "quicksort (1 # replicate (2 ^ 32) 0) 0 0 = Some (1 # replicate (2 ^ 32) 0)"
    by (rule quicksort_empty_range) simp
  with fast_array_sort_unfold [OF big high, of "1 # replicate (2 ^ 32) 0"]
  have "fast_array_sort (Some (1 # replicate (2 ^ 32) 0))
          (of_nat (length ((1 :: int64_t) # replicate (2 ^ 32) 0)))
        = Some (Some (1 # replicate (2 ^ 32) 0))"
    by (simp only: len option.map)
  moreover have "\<not> sorted (map sint ((1 :: int64_t) # replicate (2 ^ 32) 0))"
    by simp
  ultimately show ?thesis by blast
qed

subsection \<open>Arrays whose length is an \<open>int\<close>\<close>

text \<open>
  For arrays of at most \<open>INT_MAX = 2^31 - 1\<close> elements the conversion loses nothing, no
  index wraps, and the sort does what is expected of it.
\<close>

lemma sint_of_nat_word32:
  assumes "m < 2 ^ 31"
  shows "sint (of_nat m :: c_int) = int m"
proof -
  have "int m < 2 ^ 31" using assms by (metis of_nat_less_iff of_nat_numeral of_nat_power)
  moreover have "(of_nat m :: c_int) = word_of_int (int m)" by simp
  ultimately show ?thesis
    by (simp only: sint_sbintrunc') (simp add: signed_take_bit_int_eq_self)
qed

lemma int_cast_of_len:
  fixes len :: size_t
  assumes "unat len < 2 ^ 31"
  shows "sint (ucast len :: c_int) = int (unat len)"
proof -
  have "(ucast len :: c_int) = of_nat (unat len)"
    by (simp add: of_nat_unat)
  then show ?thesis
    using sint_of_nat_word32 [OF assms] by (simp only:)
qed

lemma sorted_sint_iff_nth:
  "sorted (map sint xs) \<longleftrightarrow> (\<forall>m n. m \<le> n \<and> n < length xs \<longrightarrow> xs ! m \<le>s xs ! n)"
proof
  assume s: "sorted (map sint xs)"
  show "\<forall>m n. m \<le> n \<and> n < length xs \<longrightarrow> xs ! m \<le>s xs ! n"
  proof (intro allI impI)
    fix m n assume mn: "m \<le> n \<and> n < length xs"
    then have "map sint xs ! m \<le> map sint xs ! n"
      using s by (intro sorted_nth_mono) simp_all
    with mn show "xs ! m \<le>s xs ! n" by (simp add: word_sle_eq)
  qed
next
  assume "\<forall>m n. m \<le> n \<and> n < length xs \<longrightarrow> xs ! m \<le>s xs ! n"
  then show "sorted (map sint xs)"
    by (auto simp: sorted_iff_nth_mono word_sle_eq)
qed

lemma sorted_sint_unique:
  fixes xs ys :: "'a :: len word list"
  assumes "sorted (map sint xs)" "sorted (map sint ys)" "mset ys = mset xs"
  shows "ys = xs"
proof -
  have "mset (map sint ys) = mset (map sint xs)" using assms(3) by simp
  from properties_for_sort [OF this assms(2)] have "sort (map sint xs) = map sint ys" .
  moreover have "sort (map sint xs) = map sint xs" using assms(1) by (rule sorted_sort_id)
  ultimately have eq: "map sint ys = map sint xs" by simp
  have "inj (sint :: 'a word \<Rightarrow> int)"
    by (rule injI) (rule signed_word_eqI)
  from inj_map_eq_map [OF this] eq show ?thesis by blast
qed

lemma fast_array_sort_quicksort:
  assumes "unat len = length xs" "length xs < 2 ^ 31" "1 < length xs"
  shows "fast_array_sort (Some xs) len = map_option Some (quicksort xs 0 ((ucast len :: c_int) - 1))"
    and "sint ((ucast len :: c_int) - 1) = int (length xs) - 1"
proof -
  have "\<not> len \<le> 1" using assms by (simp add: word_le_nat_alt)
  then show "fast_array_sort (Some xs) len = map_option Some (quicksort xs 0 ((ucast len :: c_int) - 1))"
    by (rule fast_array_sort_unfold) simp
  have "sint (ucast len :: c_int) = int (length xs)"
    using int_cast_of_len [of len] assms by simp
  moreover from this assms have "- (2 ^ 31) < sint (ucast len :: c_int)" by simp
  ultimately show "sint ((ucast len :: c_int) - 1) = int (length xs) - 1"
    by (simp add: sint32_pred)
qed

lemma fast_array_sort_sorts:
  assumes "unat len = length xs" "length xs < 2 ^ 31"
  obtains ys where "fast_array_sort (Some xs) len = Some (Some ys)"
    "sorted (map sint ys)" "mset ys = mset xs" "length ys = length xs"
proof (cases "length xs \<le> 1")
  case True
  then have "sorted (map sint xs)"
    by (cases xs) (auto simp: le_Suc_eq)
  moreover have "len \<le> 1" using True assms by (simp add: word_le_nat_alt)
  then have "fast_array_sort (Some xs) len = Some (Some xs)" by (simp add: fast_array_sort_def)
  ultimately show ?thesis using that [of xs] by simp
next
  case False
  then have long: "1 < length xs" by simp
  define high where "high = (ucast len :: c_int) - 1"
  have high: "sint high = int (length xs) - 1"
    using fast_array_sort_quicksort(2) [OF assms long] by (simp add: high_def)
  have "\<exists>r. quicksort xs 0 high = Some r \<and>
           length r = length xs \<and> mset r = mset xs \<and>
           (\<forall>n < length xs. int n < sint (0 :: c_int) \<or> sint high < int n \<longrightarrow> r ! n = xs ! n) \<and>
           (\<forall>m n. sint (0 :: c_int) \<le> int m \<and> m \<le> n \<and> int n \<le> sint high \<longrightarrow> r ! m \<le>s r ! n)"
    using assms by (intro quicksort_spec) (simp_all add: high)
  then obtain ys where ys: "quicksort xs 0 high = Some ys" "length ys = length xs" "mset ys = mset xs"
    "\<forall>m n. 0 \<le> int m \<and> m \<le> n \<and> int n \<le> sint high \<longrightarrow> ys ! m \<le>s ys ! n"
    by auto
  from ys(2,4) have "\<forall>m n. m \<le> n \<and> n < length ys \<longrightarrow> ys ! m \<le>s ys ! n"
    by (auto simp: high)
  then have "sorted (map sint ys)" by (simp add: sorted_sint_iff_nth)
  moreover have "fast_array_sort (Some xs) len = Some (Some ys)"
    using fast_array_sort_quicksort(1) [OF assms long] ys(1) by (simp add: high_def)
  ultimately show ?thesis using that [of ys] ys by simp
qed

lemma fast_array_sort_within_int:
  assumes len: "unat len = length xs" and bound: "length xs < 2 ^ 31"
  shows "(\<exists>ys. fast_array_sort (Some xs) len = Some (Some ys) \<and>
               sorted (map sint ys) \<and> mset ys = mset xs) \<and>
         (length xs \<le> 1 \<longrightarrow> fast_array_sort (Some xs) len = Some (Some xs)) \<and>
         (sorted (map sint xs) \<longrightarrow> fast_array_sort (Some xs) len = Some (Some xs)) \<and>
         (\<forall>ys. fast_array_sort (Some xs) len = Some (Some ys) \<longrightarrow>
               fast_array_sort (Some ys) len = Some (Some ys)) \<and>
         fast_array_sort None len = Some None"
proof -
  from fast_array_sort_sorts [OF len bound]
  obtain ys where ys: "fast_array_sort (Some xs) len = Some (Some ys)"
    "sorted (map sint ys)" "mset ys = mset xs" "length ys = length xs"
    by blast
  have short: "fast_array_sort (Some xs) len = Some (Some xs)" if "length xs \<le> 1"
  proof -
    from that len have "len \<le> 1" by (simp add: word_le_nat_alt)
    then show ?thesis by (simp add: fast_array_sort_def)
  qed
  have fixed: "fast_array_sort (Some xs) len = Some (Some xs)" if "sorted (map sint xs)"
    using sorted_sint_unique [OF that ys(2,3)] ys(1) by simp
  have twice: "fast_array_sort (Some ys) len = Some (Some ys)"
  proof -
    from fast_array_sort_sorts [of len ys] len bound ys(4)
    obtain zs where zs: "fast_array_sort (Some ys) len = Some (Some zs)"
      "sorted (map sint zs)" "mset zs = mset ys"
      by auto
    from sorted_sint_unique [OF ys(2) zs(2,3)] zs(1) show ?thesis by simp
  qed
  have null: "fast_array_sort None len = Some None"
    by (simp add: fast_array_sort_def)
  from ys short fixed twice null show ?thesis by auto
qed

lemma fast_array_sort_example:
  "fast_array_sort (Some [3, 1, - 2, 5, 3, 0]) 6 = Some (Some [- 2, 0, 1, 3, 3, 5])"
  by code_simp

section \<open>find_max\<close>

lemma foldl_smax32_Max:
  "sint (foldl smax32 m xs) = Max (insert (sint m) (sint ` set xs))"
proof (induction xs arbitrary: m)
  case Nil
  then show ?case by simp
next
  case (Cons x xs)
  have "sint (smax32 m x) = max (sint m) (sint x)"
    by (simp add: smax32_def word_sless_alt max_def)
  then have "Max (insert (sint (smax32 m x)) (sint ` set xs))
             = Max (insert (sint m) (insert (sint x) (sint ` set xs)))"
    by (cases "set xs = {}") (simp_all add: max.assoc)
  with Cons.IH [of "smax32 m x"] show ?case by simp
qed

lemma foldl_smax32_mem:
  "foldl smax32 m xs \<in> insert m (set xs)"
proof (induction xs arbitrary: m)
  case Nil
  then show ?case by simp
next
  case (Cons x xs)
  from Cons.IH [of "smax32 m x"] show ?case
    by (auto simp: smax32_def split: if_splits)
qed

lemma find_max_loop_step:
  assumes "i < len" "array + unat i < length mem" "max_value < length mem"
  shows "find_max_loop mem array len i max_value =
         find_max_loop (if mem ! max_value <s mem ! (array + unat i)
                        then mem[max_value := mem ! (array + unat i)] else mem)
           array len (i + 1) max_value"
  using assms by (subst find_max_loop.simps) simp

lemma find_max_loop_done:
  "\<not> i < len \<Longrightarrow> find_max_loop mem array len i max_value = Some mem"
  by (subst find_max_loop.simps) simp

text \<open>Within the memory the loop returns, wherever the out-parameter points.\<close>

lemma find_max_loop_returns:
  assumes "a + unat len \<le> length mem" "m < length mem"
  shows "\<exists>r. find_max_loop mem a len i m = Some r \<and> length r = length mem"
  using assms
proof (induction mem a len i m rule: find_max_loop.induct)
  case (1 mem a len i m)
  show ?case
  proof (cases "i < len")
    case False
    then show ?thesis by (simp add: find_max_loop_done)
  next
    case True
    then have lt: "unat i < unat len" by (simp add: word_less_nat_alt)
    with "1.prems" have inb: "a + unat i < length mem" by simp
    show ?thesis
    proof (cases "mem ! m <s mem ! (a + unat i)")
      case gt: True
      from "1.IH"(1) [OF True _ gt] inb "1.prems"
      have "\<exists>r. find_max_loop (mem[m := mem ! (a + unat i)]) a len (i + 1) m = Some r \<and>
                length r = length mem"
        by simp
      with gt show ?thesis
        by (simp add: find_max_loop_step [OF True inb "1.prems"(2)])
    next
      case le: False
      from "1.IH"(2) [OF True _ le] inb "1.prems"
      have "\<exists>r. find_max_loop mem a len (i + 1) m = Some r \<and> length r = length mem"
        by simp
      with le show ?thesis
        by (simp add: find_max_loop_step [OF True inb "1.prems"(2)])
    qed
  qed
qed

text \<open>
  A write outside the span leaves the span as it is; then the loop is the running
  maximum over the span, kept in the out-parameter's cell.
\<close>

lemma span_update_outside:
  assumes "m < a \<or> a + n \<le> m"
  shows "take n (drop a (mem[m := v])) = take n (drop a mem)"
proof (rule nth_equalityI)
  show "length (take n (drop a (mem[m := v]))) = length (take n (drop a mem))" by simp
  fix k assume "k < length (take n (drop a (mem[m := v])))"
  then have k: "k < n" "a + k < length mem" by auto
  with assms have "a + k \<noteq> m" by auto
  with k show "take n (drop a (mem[m := v])) ! k = take n (drop a mem) ! k" by simp
qed

lemma find_max_loop_foldl:
  assumes "a + unat len \<le> length mem" "m < length mem" "m < a \<or> a + unat len \<le> m"
  shows "find_max_loop mem a len i m =
         Some (mem[m := foldl smax32 (mem ! m) (drop (unat i) (take (unat len) (drop a mem)))])"
  using assms
proof (induction mem a len i m rule: find_max_loop.induct)
  case (1 mem a len i m)
  define span where "span = take (unat len) (drop a mem)"
  have lspan: "length span = unat len" using "1.prems"(1) by (simp add: span_def)
  show ?case
  proof (cases "i < len")
    case False
    then have "unat len \<le> unat i" by (simp add: word_less_nat_alt)
    then show ?thesis
      using False by (simp add: find_max_loop_done)
  next
    case True
    then have lt: "unat i < unat len" by (simp add: word_less_nat_alt)
    with "1.prems" have inb: "a + unat i < length mem" by simp
    have suc: "unat (i + 1) = Suc (unat i)" by (rule size_t_loop_step [OF True])
    define x where "x = mem ! (a + unat i)"
    have x: "span ! unat i = x" using lt "1.prems"(1) by (simp add: span_def x_def)
    have split: "drop (unat i) span = x # drop (Suc (unat i)) span"
      using Cons_nth_drop_Suc [of "unat i" span] lt by (simp add: lspan x)
    define mem2 where "mem2 = (if mem ! m <s x then mem[m := x] else mem)"
    have m2: "mem2 ! m = smax32 (mem ! m) x" "length mem2 = length mem"
      "take (unat len) (drop a mem2) = span" "mem2[m := v] = mem[m := v]" for v
      using "1.prems" span_update_outside [OF "1.prems"(3), of mem x]
      by (auto simp: mem2_def smax32_def span_def)
    have "find_max_loop mem2 a len (i + 1) m =
          Some (mem2[m := foldl smax32 (mem2 ! m) (drop (unat (i + 1)) (take (unat len) (drop a mem2)))])"
    proof (cases "mem ! m <s x")
      case gt: True
      from "1.IH"(1) [OF True _ gt [unfolded x_def]] inb "1.prems"
      show ?thesis by (simp add: mem2_def gt [unfolded x_def] x_def)
    next
      case le: False
      from "1.IH"(2) [OF True _ le [unfolded x_def]] inb "1.prems"
      show ?thesis by (simp add: mem2_def le [unfolded x_def] x_def)
    qed
    then have "find_max_loop mem2 a len (i + 1) m =
          Some (mem[m := foldl smax32 (mem ! m) (drop (unat i) span)])"
      by (simp add: m2 suc split)
    moreover have "find_max_loop mem a len i m = find_max_loop mem2 a len (i + 1) m"
      by (simp add: find_max_loop_step [OF True inb "1.prems"(2)] mem2_def x_def)
    ultimately show ?thesis by (simp add: span_def)
  qed
qed


lemma find_max_null:
  assumes "array = None \<or> max_value = None"
  shows "find_max array len max_value mem s
         = Some (- 1, mem, set_error ''Null pointer passed to find_max'' s)"
  using assms by (auto simp: find_max_def split: option.splits)

lemma find_max_empty:
  "find_max (Some a) 0 (Some m) mem s
   = Some (- 1, mem, set_error ''Empty array passed to find_max'' s)"
  by (simp add: find_max_def)

lemma find_max_returns:
  assumes "len \<noteq> 0" "a + unat len \<le> length mem" "m < length mem"
  shows "\<exists>mem'. find_max (Some a) len (Some m) mem s = Some (0, mem', s)"
proof -
  have "0 < unat len" using assms(1) by (simp add: unat_gt_0)
  with assms have a: "a < length mem" by simp
  from find_max_loop_returns [of a len "mem[m := mem ! a]" m 1] assms
  obtain r where "find_max_loop (mem[m := mem ! a]) a len 1 m = Some r" by auto
  with assms a show ?thesis by (simp add: find_max_def)
qed

lemma find_max_separate:
  assumes "len \<noteq> 0" "a + unat len \<le> length mem" "m < length mem"
    and "m < a \<or> a + unat len \<le> m"
  defines "span \<equiv> take (unat len) (drop a mem)"
  shows "\<exists>v. find_max (Some a) len (Some m) mem s = Some (0, mem[m := v], s) \<and>
             v \<in> set span \<and> (\<forall>x \<in> set span. x \<le>s v) \<and> sint v = Max (sint ` set span)"
proof -
  have pos: "0 < unat len" using assms(1) by (simp add: unat_gt_0)
  with assms have a: "a < length mem" by simp
  define mem1 where "mem1 = mem[m := mem ! a]"
  have m1: "length mem1 = length mem" "mem1 ! m = mem ! a"
    "take (unat len) (drop a mem1) = span" "mem1[m := v] = mem[m := v]" for v
    using assms(2-4) span_update_outside [OF assms(4), of mem "mem ! a"]
    by (simp_all add: mem1_def span_def)
  have split: "span = mem ! a # drop 1 span"
  proof -
    have "length span = unat len" using assms(2) by (simp add: span_def)
    with pos have "span = span ! 0 # drop 1 span"
      by (cases span) simp_all
    moreover have "span ! 0 = mem ! a" using pos a by (simp add: span_def)
    ultimately show ?thesis by simp
  qed
  define v where "v = foldl smax32 (mem ! a) (drop 1 span)"
  have "find_max_loop mem1 a len 1 m =
        Some (mem1[m := foldl smax32 (mem1 ! m) (drop (unat (1 :: size_t)) (take (unat len) (drop a mem1)))])"
    using assms(2-4) by (intro find_max_loop_foldl) (simp_all add: m1)
  then have "find_max_loop mem1 a len 1 m = Some (mem[m := v])"
    by (simp add: m1 v_def)
  then have res: "find_max (Some a) len (Some m) mem s = Some (0, mem[m := v], s)"
    using assms(1,3) a by (simp add: find_max_def mem1_def)
  have set_eq: "insert (mem ! a) (set (drop 1 span)) = set span"
    by (subst (2) split) simp
  have mem: "v \<in> set span"
    using foldl_smax32_mem [of "mem ! a" "drop 1 span"] unfolding v_def set_eq .
  have mx: "sint v = Max (sint ` set span)"
    using foldl_smax32_Max [of "mem ! a" "drop 1 span"]
    unfolding v_def set_eq [symmetric] by simp
  have ub: "\<forall>x \<in> set span. x \<le>s v"
  proof
    fix x assume "x \<in> set span"
    then have "sint x \<le> Max (sint ` set span)" by simp
    then show "x \<le>s v" by (simp add: word_sle_eq mx)
  qed
  from res mem ub mx show ?thesis by blast
qed

text \<open>
  Claim C10 says that on success \<open>find_max\<close> writes exactly the maximum element of the
  span. Nothing keeps \<open>max_value\<close> from pointing into the array: with the array
  \<open>{3, 9, 4}\<close> and \<open>max_value = &array[1]\<close>, the first statement \<open>*max_value = array[0]\<close>
  overwrites the 9, and the call returns 0 with 4 in the location, where the maximum of
  the span it was given is 9.
\<close>

theorem find_max_aliasing_counterexample:
  "find_max (Some 0) 3 (Some 1) [3, 9, 4] \<lparr>last_error = []\<rparr>
     = Some (0, [3, 4, 4], \<lparr>last_error = []\<rparr>) \<and>
   [3, 4, 4 :: int32_t] ! 1 = 4 \<and>
   Max (sint ` set (take (unat (3 :: size_t)) (drop 0 [3, 9, 4 :: int32_t]))) = 9 \<and>
   sint ([3, 4, 4 :: int32_t] ! 1) \<noteq> Max (sint ` set (take (unat (3 :: size_t)) (drop 0 [3, 9, 4 :: int32_t])))"
proof -
  have "find_max (Some 0) 3 (Some 1) [3, 9, 4] \<lparr>last_error = []\<rparr>
     = Some (0, [3, 4, 4], \<lparr>last_error = []\<rparr>)"
    by code_simp
  then show ?thesis by simp
qed

text \<open>
  Claim C10, amended. Whenever \<open>find_max\<close> returns the failure status \<open>-1\<close> (which it
  does exactly for a null array, a null out-parameter or a zero length), it writes
  nothing, so the caller's \<open>max_value\<close> location is left unchanged; otherwise it returns
  status 0 and leaves the error slot alone, and, provided \<open>max_value\<close> does not point
  into the span, it writes exactly the maximum element of the span (in the signed
  order) to that location and nothing else.
\<close>

theorem find_max_contract:
  assumes span: "\<forall>a. array = Some a \<longrightarrow> a + unat len \<le> length mem"
    and loc: "\<forall>m. max_value = Some m \<longrightarrow> m < length mem"
  shows "\<exists>status mem' s'.
           find_max array len max_value mem s = Some (status, mem', s') \<and>
           (status = - 1 \<or> status = 0) \<and>
           (status = - 1 \<longleftrightarrow> array = None \<or> max_value = None \<or> len = 0) \<and>
           (status = - 1 \<longrightarrow> mem' = mem) \<and>
           (status = 0 \<longrightarrow> s' = s \<and>
              (\<forall>a m. array = Some a \<and> max_value = Some m \<and> (m < a \<or> a + unat len \<le> m) \<longrightarrow>
                 (\<exists>v. mem' = mem[m := v] \<and>
                      v \<in> set (take (unat len) (drop a mem)) \<and>
                      (\<forall>x \<in> set (take (unat len) (drop a mem)). x \<le>s v) \<and>
                      sint v = Max (sint ` set (take (unat len) (drop a mem))))))"
proof (cases "array = None \<or> max_value = None")
  case True
  from find_max_null [OF True, of len mem s] True show ?thesis by auto
next
  case False
  then obtain a m where am: "array = Some a" "max_value = Some m" by auto
  have bounds: "a + unat len \<le> length mem" "m < length mem" using span loc am by simp_all
  show ?thesis
  proof (cases "len = 0")
    case True
    with find_max_empty [of a m mem s] show ?thesis by (simp add: am)
  next
    case nonempty: False
    show ?thesis
    proof (cases "m < a \<or> a + unat len \<le> m")
      case True
      from find_max_separate [OF nonempty bounds True, of s] nonempty
      show ?thesis by (auto simp: am)
    next
      case False
      from find_max_returns [OF nonempty bounds, of s] False nonempty
      show ?thesis by (auto simp: am)
    qed
  qed
qed

theorem find_max_contract_witness:
  "find_max (Some 0) 3 (Some 3) [3, - 5, 9, 77] \<lparr>last_error = []\<rparr>
     = Some (0, [3, - 5, 9, 9], \<lparr>last_error = []\<rparr>) \<and>
   0 + unat (3 :: size_t) \<le> length [3, - 5, 9, 77 :: int32_t] \<and>
   (3 :: nat) < length [3, - 5, 9, 77 :: int32_t] \<and>
   sint (9 :: int32_t) = Max (sint ` set (take (unat (3 :: size_t)) (drop 0 [3, - 5, 9, 77 :: int32_t])))"
proof -
  have c: "find_max (Some 0) 3 (Some 3) [3, - 5, 9, 77] \<lparr>last_error = []\<rparr>
     = Some (0, [3, - 5, 9, 9], \<lparr>last_error = []\<rparr>)"
    by code_simp
  have sp: "\<forall>a. Some (0 :: nat) = Some a \<longrightarrow> a + unat (3 :: size_t) \<le> length [3, - 5, 9, 77 :: int32_t]"
    by simp
  have lo: "\<forall>m. Some (3 :: nat) = Some m \<longrightarrow> m < length [3, - 5, 9, 77 :: int32_t]"
    by simp
  from find_max_contract [OF sp lo, of "\<lparr>last_error = []\<rparr>"] c show ?thesis by simp
qed

section \<open>reverse_string\<close>
















end
